theory Spec2Isabelle
  imports Main "HOL-Library.Multiset"
begin

section \<open>Data model\<close>

text \<open>
  The class \<open>custom::priority_queue<T, Container, Compare>\<close> of \<open>priority_queue.h\<close> has two
  members: the underlying \<open>container\<close> (a \<open>custom::vector<T>\<close> by default, modelled as a
  list, position 0 first) and the comparison object \<open>compare\<close> (modelled as the binary
  predicate it computes).
\<close>

record 'a priority_queue =
  container :: "'a list"
  compare :: "'a \<Rightarrow> 'a \<Rightarrow> bool"

text \<open>The only exception the header throws: \<open>std::out_of_range\<close>, in \<open>top\<close>.\<close>

datatype error = OutOfRange

text \<open>\<open>std::swap(container[i], container[j])\<close> on two positions of the storage.\<close>

definition swap_elems :: "'a list \<Rightarrow> nat \<Rightarrow> nat \<Rightarrow> 'a list" where
  "swap_elems c i j = c[i := c ! j, j := c ! i]"

section \<open>The heap algorithms on the storage\<close>

text \<open>
  \<open>percolateDown(indexHeap)\<close>, lines 166-189. The index is a heap index (1-based); the
  storage is read at \<open>index - 1\<close>. The result is the returned flag and the storage the call
  leaves behind. The \<open>&&\<close> of the source evaluates its right operand only when the guard on
  the left holds, so every \<open>c ! k\<close> below is read with \<open>k\<close> in range whenever
  \<open>1 \<le> indexHeap\<close>. No caller passes \<open>indexHeap = 0\<close> (there \<open>indexHeap - 1\<close> is not a
  position of the storage); the function leaves the storage alone in that case. Indices are
  natural numbers here; the section on the machine-level semantics below writes out the
  \<open>size_t\<close> arithmetic and the bounds of every access, and shows that it computes this
  function.
\<close>

function percolateDown :: "('a \<Rightarrow> 'a \<Rightarrow> bool) \<Rightarrow> 'a list \<Rightarrow> nat \<Rightarrow> bool \<times> 'a list" where
  "percolateDown cmp c indexHeap =
     (if indexHeap = 0 then (False, c)
      else
        let indexLeft = indexHeap * 2;
            indexRight = indexLeft + 1;
            indexBigger =
              (if indexRight \<le> length c \<and> cmp (c ! (indexLeft - 1)) (c ! (indexRight - 1))
               then indexRight else indexLeft)
        in if indexBigger \<le> length c \<and> cmp (c ! (indexHeap - 1)) (c ! (indexBigger - 1))
           then (True, snd (percolateDown cmp
                              (swap_elems c (indexHeap - 1) (indexBigger - 1)) indexBigger))
           else (False, c))"
  by pat_completeness auto
termination
  by (relation "measure (\<lambda>(cmp, c, i). Suc (length c) - i)")
     (auto simp: swap_elems_def split: if_splits)

declare percolateDown.simps [simp del]

text \<open>\<open>heapify\<close>, lines 195-201: the loop counts \<open>indexHeap\<close> down from \<open>num / 2\<close> to 1.\<close>

function heapify_loop :: "('a \<Rightarrow> 'a \<Rightarrow> bool) \<Rightarrow> 'a list \<Rightarrow> nat \<Rightarrow> 'a list" where
  "heapify_loop cmp c indexHeap =
     (if indexHeap \<ge> 1
      then heapify_loop cmp (snd (percolateDown cmp c indexHeap)) (indexHeap - 1)
      else c)"
  by pat_completeness auto
termination
  by (relation "measure (\<lambda>(cmp, c, i). i)") auto

declare heapify_loop.simps [simp del]

definition heapify :: "('a \<Rightarrow> 'a \<Rightarrow> bool) \<Rightarrow> 'a list \<Rightarrow> 'a list" where
  "heapify cmp c = (let num = length c in heapify_loop cmp c (num div 2))"

text \<open>
  The loop of \<open>push\<close>, lines 148-149 and 156-157:
  \<open>while (index && percolateDown(index)) index = index / 2;\<close>
\<close>

function push_loop :: "('a \<Rightarrow> 'a \<Rightarrow> bool) \<Rightarrow> 'a list \<Rightarrow> nat \<Rightarrow> 'a list" where
  "push_loop cmp c index =
     (if index = 0 then c
      else case percolateDown cmp c index of
             (changed, c') \<Rightarrow> if changed then push_loop cmp c' (index div 2) else c')"
  by pat_completeness auto
termination
  by (relation "measure (\<lambda>(cmp, c, i). i)") auto

declare push_loop.simps [simp del]

section \<open>The operations of the class\<close>

text \<open>Constructors, lines 46-67. A default argument \<open>c = Compare()\<close> is supplied by the
  caller, so every constructor takes the comparison object it stores.\<close>

definition pq_default :: "('a \<Rightarrow> 'a \<Rightarrow> bool) \<Rightarrow> 'a priority_queue" where
  "pq_default c = \<lparr>container = [], compare = c\<rparr>"

text \<open>Copy construction, line 48: \<open>container(rhs.container)\<close> and \<open>compare(c)\<close>. The source is
  a \<open>const\<close> reference and stays as it is.\<close>

definition pq_copy :: "'a priority_queue \<Rightarrow> ('a \<Rightarrow> 'a \<Rightarrow> bool) \<Rightarrow> 'a priority_queue" where
  "pq_copy rhs c = \<lparr>container = container rhs, compare = c\<rparr>"

text \<open>Modelled from the spec: the move constructor of the container (\<open>vector.h\<close>, which is
  not among the sources). Move construction transfers the storage: the constructed
  container holds the elements and the source is left holding none.\<close>

definition moved_from :: "'a list \<Rightarrow> 'a list" where
  "moved_from c = []"

text \<open>Move construction, line 50: \<open>container(std::move(rhs.container))\<close> and \<open>compare(c)\<close>.
  The result is the constructed queue together with the source after the move.\<close>

definition pq_move ::
  "'a priority_queue \<Rightarrow> ('a \<Rightarrow> 'a \<Rightarrow> bool) \<Rightarrow> 'a priority_queue \<times> 'a priority_queue" where
  "pq_move rhs c =
     (\<lparr>container = container rhs, compare = c\<rparr>,
      rhs\<lparr>container := moved_from (container rhs)\<rparr>)"

text \<open>From a container, lines 62-67: moved in and heapified, or copied as it is.\<close>

definition pq_from_container_move :: "('a \<Rightarrow> 'a \<Rightarrow> bool) \<Rightarrow> 'a list \<Rightarrow> 'a priority_queue" where
  "pq_from_container_move c rhs = \<lparr>container = heapify c rhs, compare = c\<rparr>"

definition pq_from_container_ref :: "('a \<Rightarrow> 'a \<Rightarrow> bool) \<Rightarrow> 'a list \<Rightarrow> 'a priority_queue" where
  "pq_from_container_ref c rhs = \<lparr>container = rhs, compare = c\<rparr>"

definition size_pq :: "'a priority_queue \<Rightarrow> nat" where
  "size_pq q = length (container q)"

definition empty_pq :: "'a priority_queue \<Rightarrow> bool" where
  "empty_pq q = (container q = [])"

text \<open>\<open>top\<close>, lines 115-121: \<open>container.front()\<close> unless the queue is empty.\<close>

definition top_pq :: "'a priority_queue \<Rightarrow> error + 'a" where
  "top_pq q = (if \<not> empty_pq q then Inr (container q ! 0) else Inl OutOfRange)"

text \<open>\<open>push\<close>, lines 143-158; the two overloads differ only in how \<open>t\<close> is passed.\<close>

definition push :: "'a priority_queue \<Rightarrow> 'a \<Rightarrow> 'a priority_queue" where
  "push q t =
     (let c = container q @ [t];
          index = length c div 2
      in q\<lparr>container := push_loop (compare q) c index\<rparr>)"

text \<open>\<open>pop\<close>, lines 127-137.\<close>

definition pop :: "'a priority_queue \<Rightarrow> 'a priority_queue" where
  "pop q =
     (if empty_pq q then q
      else
        let c = swap_elems (container q) 0 (size_pq q - 1);
            c = butlast c
        in q\<lparr>container := snd (percolateDown (compare q) c 1)\<rparr>)"

text \<open>The range constructor, lines 52-61: one \<open>push\<close> for each element of the range.\<close>

definition pq_from_range :: "'a list \<Rightarrow> ('a \<Rightarrow> 'a \<Rightarrow> bool) \<Rightarrow> 'a priority_queue" where
  "pq_from_range xs c = foldl push (pq_default c) xs"

text \<open>The free function \<open>swap\<close>, lines 207-213, on the pair of its two arguments.\<close>

definition swap_pq :: "'a priority_queue \<times> 'a priority_queue \<Rightarrow> 'a priority_queue \<times> 'a priority_queue" where
  "swap_pq p =
     (case p of (lhs, rhs) \<Rightarrow>
        (case (lhs\<lparr>container := container rhs\<rparr>, rhs\<lparr>container := container lhs\<rparr>) of
           (lhs, rhs) \<Rightarrow> (lhs\<lparr>compare := compare rhs\<rparr>, rhs\<lparr>compare := compare lhs\<rparr>)))"

section \<open>Orderings\<close>

text \<open>
  The comparison object is used as a "less than": \<open>compare(a, b)\<close> holds when \<open>a\<close> ranks
  strictly below \<open>b\<close>. The contract of \<open>Compare\<close> is that of the standard library: a strict
  weak ordering (irreflexive, transitive, and with a transitive "not below").
\<close>

definition strict_weak_order :: "('a \<Rightarrow> 'a \<Rightarrow> bool) \<Rightarrow> bool" where
  "strict_weak_order cmp \<longleftrightarrow>
     (\<forall>a. \<not> cmp a a) \<and>
     (\<forall>a b c. cmp a b \<longrightarrow> cmp b c \<longrightarrow> cmp a c) \<and>
     (\<forall>a b c. \<not> cmp a b \<longrightarrow> \<not> cmp b c \<longrightarrow> \<not> cmp a c)"

lemma swo_irrefl: "strict_weak_order cmp \<Longrightarrow> \<not> cmp a a"
  by (simp add: strict_weak_order_def)

lemma swo_trans: "strict_weak_order cmp \<Longrightarrow> cmp a b \<Longrightarrow> cmp b c \<Longrightarrow> cmp a c"
  unfolding strict_weak_order_def by blast

lemma swo_negtrans: "strict_weak_order cmp \<Longrightarrow> \<not> cmp a b \<Longrightarrow> \<not> cmp b c \<Longrightarrow> \<not> cmp a c"
  unfolding strict_weak_order_def by blast

lemma swo_asym: "strict_weak_order cmp \<Longrightarrow> cmp a b \<Longrightarrow> \<not> cmp b a"
  unfolding strict_weak_order_def by blast

text \<open>\<open>std::less<T>\<close> (the default \<open>Compare\<close>) and \<open>std::greater<T>\<close>; and an ordering
  of key-payload pairs by their key alone, under which distinct elements tie.\<close>

definition less_cmp :: "'a::linorder \<Rightarrow> 'a \<Rightarrow> bool" where
  "less_cmp a b \<longleftrightarrow> a < b"

definition greater_cmp :: "'a::linorder \<Rightarrow> 'a \<Rightarrow> bool" where
  "greater_cmp a b \<longleftrightarrow> a > b"

definition key_less :: "nat \<times> nat \<Rightarrow> nat \<times> nat \<Rightarrow> bool" where
  "key_less a b \<longleftrightarrow> fst a < fst b"

lemma swo_less_cmp: "strict_weak_order (less_cmp :: 'a::linorder \<Rightarrow> 'a \<Rightarrow> bool)"
  by (auto simp: strict_weak_order_def less_cmp_def)

lemma swo_greater_cmp: "strict_weak_order (greater_cmp :: 'a::linorder \<Rightarrow> 'a \<Rightarrow> bool)"
  by (auto simp: strict_weak_order_def greater_cmp_def)

lemma swo_key_less: "strict_weak_order key_less"
  by (auto simp: strict_weak_order_def key_less_def)

lemma swo_inverse: "strict_weak_order cmp \<Longrightarrow> strict_weak_order (\<lambda>a b. cmp b a)"
  unfolding strict_weak_order_def by blast

text \<open>Two elements tie when neither ranks below the other; an ordering is total when
  only equal elements tie.\<close>

definition ties :: "('a \<Rightarrow> 'a \<Rightarrow> bool) \<Rightarrow> 'a \<Rightarrow> 'a \<Rightarrow> bool" where
  "ties cmp a b \<longleftrightarrow> \<not> cmp a b \<and> \<not> cmp b a"

definition total_ordering :: "('a \<Rightarrow> 'a \<Rightarrow> bool) \<Rightarrow> bool" where
  "total_ordering cmp \<longleftrightarrow> (\<forall>a b. ties cmp a b \<longrightarrow> a = b)"

lemma total_less_cmp: "total_ordering (less_cmp :: 'a::linorder \<Rightarrow> 'a \<Rightarrow> bool)"
  by (auto simp: total_ordering_def ties_def less_cmp_def)

text \<open>Two orderings agree on the elements of a storage.\<close>

definition agrees_on :: "('a \<Rightarrow> 'a \<Rightarrow> bool) \<Rightarrow> ('a \<Rightarrow> 'a \<Rightarrow> bool) \<Rightarrow> 'a list \<Rightarrow> bool" where
  "agrees_on c c' xs \<longleftrightarrow> (\<forall>a \<in> set xs. \<forall>b \<in> set xs. c a b = c' a b)"

definition non_increasing :: "('a \<Rightarrow> 'a \<Rightarrow> bool) \<Rightarrow> 'a list \<Rightarrow> bool" where
  "non_increasing cmp xs \<longleftrightarrow> sorted_wrt (\<lambda>a b. \<not> cmp a b) xs"

definition non_decreasing :: "('a \<Rightarrow> 'a \<Rightarrow> bool) \<Rightarrow> 'a list \<Rightarrow> bool" where
  "non_decreasing cmp xs \<longleftrightarrow> sorted_wrt (\<lambda>a b. \<not> cmp b a) xs"

section \<open>The heap invariant\<close>

text \<open>
  For every 1-based parent index \<open>i\<close> and each child \<open>2i\<close>, \<open>2i + 1\<close> that lies within the
  current size, \<open>compare(container[i - 1], container[child - 1])\<close> is false.
\<close>

definition heap_inv :: "('a \<Rightarrow> 'a \<Rightarrow> bool) \<Rightarrow> 'a list \<Rightarrow> bool" where
  "heap_inv cmp c \<longleftrightarrow>
     (\<forall>i \<in> set [1..<Suc (length c)].
        (2 * i \<le> length c \<longrightarrow> \<not> cmp (c ! (i - 1)) (c ! (2 * i - 1))) \<and>
        (2 * i + 1 \<le> length c \<longrightarrow> \<not> cmp (c ! (i - 1)) (c ! (2 * i + 1 - 1))))"

definition pq_inv :: "'a priority_queue \<Rightarrow> bool" where
  "pq_inv q \<longleftrightarrow> heap_inv (compare q) (container q)"

text \<open>
  Reading the storage at a heap index, and the child that \<open>percolateDown\<close> selects as
  \<open>indexBigger\<close>: the right one when it exists and the left ranks below it, else the left.
\<close>

definition at :: "'a list \<Rightarrow> nat \<Rightarrow> 'a" where
  "at c k = c ! (k - 1)"

definition bigger_child :: "('a \<Rightarrow> 'a \<Rightarrow> bool) \<Rightarrow> 'a list \<Rightarrow> nat \<Rightarrow> nat" where
  "bigger_child cmp c i =
     (if 2 * i + 1 \<le> length c \<and> cmp (at c (2 * i)) (at c (2 * i + 1)) then 2 * i + 1 else 2 * i)"

text \<open>The invariant stated for the stronger child only.\<close>

definition stronger_child_inv :: "('a \<Rightarrow> 'a \<Rightarrow> bool) \<Rightarrow> 'a list \<Rightarrow> bool" where
  "stronger_child_inv cmp c \<longleftrightarrow>
     (\<forall>i \<in> set [1..<Suc (length c)].
        bigger_child cmp c i \<le> length c \<longrightarrow> \<not> cmp (at c i) (at c (bigger_child cmp c i)))"

lemma heap_inv_stronger_child: "heap_inv cmp c \<Longrightarrow> stronger_child_inv cmp c"
  unfolding heap_inv_def stronger_child_inv_def bigger_child_def at_def
  by (auto simp del: upt_Suc)

section \<open>Facts about \<open>percolateDown\<close>\<close>

lemma length_swap_elems [simp]: "length (swap_elems c i j) = length c"
  by (simp add: swap_elems_def)

lemma mset_swap_elems:
  "i < length c \<Longrightarrow> j < length c \<Longrightarrow> mset (swap_elems c i j) = mset c"
  unfolding swap_elems_def by (rule mset_swap)

lemma at_swap_elems:
  assumes "1 \<le> i" "i \<le> length c" "1 \<le> b" "b \<le> length c" "1 \<le> x"
  shows "at (swap_elems c (i - 1) (b - 1)) x =
           (if x = b then at c i else if x = i then at c b else at c x)"
  using assms by (auto simp: at_def swap_elems_def nth_list_update)

lemma bigger_child_cases:
  "bigger_child cmp c i = 2 * i \<or> bigger_child cmp c i = 2 * i + 1"
  by (simp add: bigger_child_def)

lemma bigger_child_gt: "1 \<le> i \<Longrightarrow> i < bigger_child cmp c i"
  by (simp add: bigger_child_def)

lemma percolateDown_unfold:
  "1 \<le> i \<Longrightarrow> percolateDown cmp c i =
     (if bigger_child cmp c i \<le> length c \<and> cmp (at c i) (at c (bigger_child cmp c i))
      then (True, snd (percolateDown cmp (swap_elems c (i - 1) (bigger_child cmp c i - 1))
                         (bigger_child cmp c i)))
      else (False, c))"
  by (subst percolateDown.simps)
     (simp add: Let_def bigger_child_def at_def mult.commute)

lemma percolateDown_induct [consumes 1, case_names step]:
  assumes "1 \<le> i"
    and step: "\<And>c i. 1 \<le> i \<Longrightarrow>
       (bigger_child cmp c i \<le> length c \<Longrightarrow> cmp (at c i) (at c (bigger_child cmp c i)) \<Longrightarrow>
          P (swap_elems c (i - 1) (bigger_child cmp c i - 1)) (bigger_child cmp c i)) \<Longrightarrow>
       P c i"
  shows "P c i"
  using assms(1)
proof (induction "Suc (length c) - i" arbitrary: c i rule: less_induct)
  case less
  show ?case
  proof (rule step [OF less.prems])
    assume b: "bigger_child cmp c i \<le> length c"
    have gt: "i < bigger_child cmp c i" using less.prems by (rule bigger_child_gt)
    show "P (swap_elems c (i - 1) (bigger_child cmp c i - 1)) (bigger_child cmp c i)"
      by (rule less.hyps) (use b gt less.prems in simp_all)
  qed
qed

lemma percolateDown_stay:
  assumes "1 \<le> i"
    and "\<not> (bigger_child cmp c i \<le> length c \<and> cmp (at c i) (at c (bigger_child cmp c i)))"
  shows "percolateDown cmp c i = (False, c)"
  using assms by (simp add: percolateDown_unfold)

lemma percolateDown_swap:
  assumes "1 \<le> i"
    and "bigger_child cmp c i \<le> length c" and "cmp (at c i) (at c (bigger_child cmp c i))"
  shows "percolateDown cmp c i =
           (True, snd (percolateDown cmp (swap_elems c (i - 1) (bigger_child cmp c i - 1))
                         (bigger_child cmp c i)))"
  using assms by (simp add: percolateDown_unfold)

lemma length_percolateDown [simp]: "length (snd (percolateDown cmp c i)) = length c"
proof (cases "1 \<le> i")
  case True
  then show ?thesis
  proof (induction c i rule: percolateDown_induct [where cmp = cmp])
    case (step c i)
    show ?case
    proof (cases "bigger_child cmp c i \<le> length c \<and> cmp (at c i) (at c (bigger_child cmp c i))")
      case True
      with step show ?thesis by (simp add: percolateDown_swap)
    next
      case False
      with step.hyps show ?thesis by (simp add: percolateDown_stay)
    qed
  qed
next
  case False
  then show ?thesis by (simp add: percolateDown.simps)
qed

lemma mset_percolateDown [simp]: "mset (snd (percolateDown cmp c i)) = mset c"
proof (cases "1 \<le> i")
  case True
  then show ?thesis
  proof (induction c i rule: percolateDown_induct [where cmp = cmp])
    case (step c i)
    show ?case
    proof (cases "bigger_child cmp c i \<le> length c \<and> cmp (at c i) (at c (bigger_child cmp c i))")
      case True
      have "i < bigger_child cmp c i" using step.hyps by (rule bigger_child_gt)
      with True step.hyps have "mset (swap_elems c (i - 1) (bigger_child cmp c i - 1)) = mset c"
        by (intro mset_swap_elems) auto
      with True step show ?thesis by (simp add: percolateDown_swap)
    next
      case False
      with step.hyps show ?thesis by (simp add: percolateDown_stay)
    qed
  qed
next
  case False
  then show ?thesis by (simp add: percolateDown.simps)
qed

section \<open>\<open>percolateDown\<close> repairs the heap below an index\<close>

text \<open>
  \<open>edge_ok cmp c k\<close>: the parent of position \<open>k\<close> does not rank below it.
  \<open>heap_above cmp c m\<close>: every edge whose parent index is at least \<open>m\<close> is in order.
  \<open>sift_pre cmp c m i\<close>: as \<open>heap_above\<close>, but for the edges leaving \<open>i\<close>, and the parent of
  \<open>i\<close> does not rank below the children of \<open>i\<close>.
\<close>

definition edge_ok :: "('a \<Rightarrow> 'a \<Rightarrow> bool) \<Rightarrow> 'a list \<Rightarrow> nat \<Rightarrow> bool" where
  "edge_ok cmp c k \<longleftrightarrow> \<not> cmp (at c (k div 2)) (at c k)"

definition heap_above :: "('a \<Rightarrow> 'a \<Rightarrow> bool) \<Rightarrow> 'a list \<Rightarrow> nat \<Rightarrow> bool" where
  "heap_above cmp c m \<longleftrightarrow> (\<forall>k. 2 \<le> k \<and> k \<le> length c \<and> m \<le> k div 2 \<longrightarrow> edge_ok cmp c k)"

definition sift_pre :: "('a \<Rightarrow> 'a \<Rightarrow> bool) \<Rightarrow> 'a list \<Rightarrow> nat \<Rightarrow> nat \<Rightarrow> bool" where
  "sift_pre cmp c m i \<longleftrightarrow>
     (\<forall>k. 2 \<le> k \<and> k \<le> length c \<and> m \<le> k div 2 \<and> k div 2 \<noteq> i \<longrightarrow> edge_ok cmp c k) \<and>
     (m \<le> i div 2 \<and> 1 \<le> i div 2 \<longrightarrow>
        (\<forall>k. k \<le> length c \<and> k div 2 = i \<longrightarrow> \<not> cmp (at c (i div 2)) (at c k)))"

lemma child_cases: "k div 2 = i \<Longrightarrow> k = 2 * i \<or> k = 2 * i + 1" for k i :: nat
  by presburger

lemma bigger_child_dominates:
  assumes swo: "strict_weak_order cmp"
    and k: "k div 2 = i" "k \<le> length c"
  shows "bigger_child cmp c i \<le> length c \<and> \<not> cmp (at c (bigger_child cmp c i)) (at c k)"
proof -
  from k(1) have "k = 2 * i \<or> k = 2 * i + 1" by (rule child_cases)
  then show ?thesis
  proof
    assume "k = 2 * i"
    with k(2) swo show ?thesis
      by (auto simp: bigger_child_def dest: swo_irrefl swo_asym)
  next
    assume "k = 2 * i + 1"
    with k(2) swo show ?thesis
      by (auto simp: bigger_child_def dest: swo_irrefl)
  qed
qed

lemma bigger_child_parent: "bigger_child cmp c i div 2 = i"
  by (simp add: bigger_child_def)

lemma sift_pre_stay:
  assumes swo: "strict_weak_order cmp"
    and pre: "sift_pre cmp c m i"
    and stay: "\<not> (bigger_child cmp c i \<le> length c \<and> cmp (at c i) (at c (bigger_child cmp c i)))"
  shows "heap_above cmp c m"
  unfolding heap_above_def
proof (intro allI impI)
  fix k assume k: "2 \<le> k \<and> k \<le> length c \<and> m \<le> k div 2"
  show "edge_ok cmp c k"
  proof (cases "k div 2 = i")
    case False
    with k pre show ?thesis by (simp add: sift_pre_def)
  next
    case True
    with k swo have d: "bigger_child cmp c i \<le> length c"
      "\<not> cmp (at c (bigger_child cmp c i)) (at c k)"
      using bigger_child_dominates [of cmp k i c] by simp_all
    with stay have "\<not> cmp (at c i) (at c (bigger_child cmp c i))" by simp
    with d(2) swo have "\<not> cmp (at c i) (at c k)" by (metis swo_negtrans)
    with True show ?thesis by (simp add: edge_ok_def)
  qed
qed

lemma sift_pre_swap:
  assumes swo: "strict_weak_order cmp"
    and i: "1 \<le> i" "m \<le> i"
    and pre: "sift_pre cmp c m i"
    and b: "bigger_child cmp c i \<le> length c"
    and viol: "cmp (at c i) (at c (bigger_child cmp c i))"
  shows "sift_pre cmp (swap_elems c (i - 1) (bigger_child cmp c i - 1)) m (bigger_child cmp c i)"
proof -
  define b where "b = bigger_child cmp c i"
  define c' where "c' = swap_elems c (i - 1) (b - 1)"
  have bi: "b div 2 = i" and ib: "i < b" and b1: "1 \<le> b" and bl: "b \<le> length c"
    and il: "i \<le> length c"
    using i b bigger_child_gt [of i cmp c] by (simp_all add: b_def bigger_child_parent)
  have at': "at c' x = (if x = b then at c i else if x = i then at c b else at c x)"
    if "1 \<le> x" for x
    unfolding c'_def using i(1) il b1 bl that by (rule at_swap_elems)
  have len: "length c' = length c" by (simp add: c'_def)
  have viol': "cmp (at c i) (at c b)" using viol by (simp add: b_def)
  have A: "edge_ok cmp c' k" if k: "2 \<le> k" "k \<le> length c" "m \<le> k div 2" "k div 2 \<noteq> b" for k
  proof -
    have k1: "1 \<le> k" "1 \<le> k div 2" using k(1) by simp_all
    consider (child) "k div 2 = i" | (self) "k div 2 \<noteq> i" "k = i" | (other) "k div 2 \<noteq> i" "k \<noteq> i"
      by blast
    then show ?thesis
    proof cases
      case child
      then have ki: "k \<noteq> i" using k(1) by presburger
      show ?thesis
      proof (cases "k = b")
        case True
        have "at c' b = at c i" using at' [of b] b1 by simp
        moreover have "at c' i = at c b" using at' [of i] i(1) ib by simp
        moreover have "\<not> cmp (at c b) (at c i)" using swo viol' by (rule swo_asym)
        ultimately show ?thesis using True child by (simp add: edge_ok_def)
      next
        case False
        have "\<not> cmp (at c b) (at c k)"
          using bigger_child_dominates [OF swo child k(2)] by (simp add: b_def)
        moreover have "at c' k = at c k" using at' [of k] k1 False ki by simp
        moreover have "at c' i = at c b" using at' [of i] i(1) ib by simp
        ultimately show ?thesis using child by (simp add: edge_ok_def)
      qed
    next
      case self
      have g: "i div 2 < i" "i div 2 \<noteq> b" using i(1) ib by simp_all
      have "\<not> cmp (at c (i div 2)) (at c b)"
        using pre self k k1 bi bl by (simp add: sift_pre_def)
      moreover have "at c' i = at c b" using at' [of i] i(1) ib by simp
      moreover have "at c' (i div 2) = at c (i div 2)" using at' [of "i div 2"] g k1 self by simp
      ultimately show ?thesis using self by (simp add: edge_ok_def)
    next
      case other
      have "k \<noteq> b" using other(1) bi by blast
      moreover have "edge_ok cmp c k" using pre other k by (simp add: sift_pre_def)
      moreover have "at c' (k div 2) = at c (k div 2)" using at' [of "k div 2"] k1 other k(4) by simp
      ultimately show ?thesis using other at' [of k] k1
        by (simp add: edge_ok_def)
    qed
  qed
  have B: "\<not> cmp (at c' (b div 2)) (at c' k)" if k: "k \<le> length c" "k div 2 = b" for k
  proof -
    have kb: "b < k" "2 \<le> k" "1 \<le> k" "k \<noteq> i" using k(2) b1 ib by simp_all
    have "edge_ok cmp c k" using pre k kb ib i(2) by (simp add: sift_pre_def)
    moreover have "at c' k = at c k" using at' [of k] kb by simp
    moreover have "at c' i = at c b" using at' [of i] i(1) ib by simp
    ultimately show ?thesis using k bi by (simp add: edge_ok_def)
  qed
  show ?thesis
    unfolding sift_pre_def b_def [symmetric] c'_def [symmetric]
    using A B by (simp add: len)
qed

lemma sift_down:
  assumes swo: "strict_weak_order cmp" and i: "1 \<le> i"
  shows "m \<le> i \<Longrightarrow> sift_pre cmp c m i \<Longrightarrow> heap_above cmp (snd (percolateDown cmp c i)) m"
  using i
proof (induction c i rule: percolateDown_induct [where cmp = cmp])
  case (step c i)
  show ?case
  proof (cases "bigger_child cmp c i \<le> length c \<and> cmp (at c i) (at c (bigger_child cmp c i))")
    case False
    with step.hyps have "percolateDown cmp c i = (False, c)" by (rule percolateDown_stay)
    with sift_pre_stay [OF swo step.prems(2) False] show ?thesis by simp
  next
    case True
    then have b: "bigger_child cmp c i \<le> length c"
      and v: "cmp (at c i) (at c (bigger_child cmp c i))" by simp_all
    have "sift_pre cmp (swap_elems c (i - 1) (bigger_child cmp c i - 1)) m (bigger_child cmp c i)"
      using swo step.hyps step.prems b v by (rule sift_pre_swap)
    moreover have "m \<le> bigger_child cmp c i"
      using step.prems(1) bigger_child_gt [OF step.hyps, of cmp c] by simp
    ultimately have "heap_above cmp
        (snd (percolateDown cmp (swap_elems c (i - 1) (bigger_child cmp c i - 1))
               (bigger_child cmp c i))) m"
      using step.IH [OF b v] by simp
    then show ?thesis by (simp add: percolateDown_swap [OF step.hyps b v])
  qed
qed

lemma heap_inv_alt:
  "heap_inv cmp c \<longleftrightarrow>
     (\<forall>i. 1 \<le> i \<and> i \<le> length c \<longrightarrow>
        (2 * i \<le> length c \<longrightarrow> \<not> cmp (at c i) (at c (2 * i))) \<and>
        (2 * i + 1 \<le> length c \<longrightarrow> \<not> cmp (at c i) (at c (2 * i + 1))))"
  unfolding heap_inv_def at_def by (auto simp del: upt_Suc)

lemma heap_inv_iff: "heap_inv cmp c \<longleftrightarrow> heap_above cmp c 1"
proof
  assume h: "heap_inv cmp c"
  show "heap_above cmp c 1"
    unfolding heap_above_def edge_ok_def
  proof (intro allI impI)
    fix k assume k: "2 \<le> k \<and> k \<le> length c \<and> 1 \<le> k div 2"
    then have p: "1 \<le> k div 2 \<and> k div 2 \<le> length c" by auto
    have "k = 2 * (k div 2) \<or> k = 2 * (k div 2) + 1" by presburger
    then show "\<not> cmp (at c (k div 2)) (at c k)"
    proof
      assume e: "k = 2 * (k div 2)"
      then have "2 * (k div 2) \<le> length c" using k by simp
      with h p have "\<not> cmp (at c (k div 2)) (at c (2 * (k div 2)))"
        unfolding heap_inv_alt by blast
      with e show ?thesis by simp
    next
      assume e: "k = 2 * (k div 2) + 1"
      then have "2 * (k div 2) + 1 \<le> length c" using k by simp
      with h p have "\<not> cmp (at c (k div 2)) (at c (2 * (k div 2) + 1))"
        unfolding heap_inv_alt by blast
      with e show ?thesis by simp
    qed
  qed
next
  assume h: "heap_above cmp c 1"
  show "heap_inv cmp c"
    unfolding heap_inv_alt
  proof (intro allI conjI impI)
    fix i assume i: "1 \<le> i \<and> i \<le> length c" and l: "2 * i \<le> length c"
    then have "edge_ok cmp c (2 * i)" using h by (auto simp: heap_above_def)
    then show "\<not> cmp (at c i) (at c (2 * i))" by (simp add: edge_ok_def)
  next
    fix i assume i: "1 \<le> i \<and> i \<le> length c" and l: "2 * i + 1 \<le> length c"
    then have "edge_ok cmp c (2 * i + 1)" using h by (auto simp: heap_above_def)
    then show "\<not> cmp (at c i) (at c (2 * i + 1))" by (simp add: edge_ok_def)
  qed
qed

lemma heap_inv_Nil [simp]: "heap_inv cmp []"
  by (simp add: heap_inv_def)

subsection \<open>pop\<close>

lemma at_pop:
  "2 \<le> k \<Longrightarrow> k \<le> length c - 1 \<Longrightarrow> at (butlast (swap_elems c 0 (length c - 1))) k = at c k"
  by (simp add: at_def swap_elems_def nth_butlast)

lemma heap_inv_pop_list:
  assumes swo: "strict_weak_order cmp" and h: "heap_inv cmp c"
  shows "heap_inv cmp (snd (percolateDown cmp (butlast (swap_elems c 0 (length c - 1))) 1))"
proof -
  let ?c = "butlast (swap_elems c 0 (length c - 1))"
  have len: "length ?c = length c - 1" by simp
  have "sift_pre cmp ?c 1 1"
    unfolding sift_pre_def
  proof (intro conjI allI impI)
    fix k assume k: "2 \<le> k \<and> k \<le> length ?c \<and> 1 \<le> k div 2 \<and> k div 2 \<noteq> 1"
    then have k4: "4 \<le> k" by presburger
    from k have "k \<le> length c" by auto
    with k have "edge_ok cmp c k" using h by (simp add: heap_inv_iff heap_above_def)
    moreover have "at ?c k = at c k" using k by (intro at_pop) simp_all
    moreover have "2 \<le> k div 2" "k div 2 \<le> length c - 1" using k k4 by auto
    then have "at ?c (k div 2) = at c (k div 2)" by (rule at_pop)
    ultimately show "edge_ok cmp ?c k" by (simp add: edge_ok_def)
  qed simp
  then have "heap_above cmp (snd (percolateDown cmp ?c 1)) 1"
    using sift_down [OF swo, of 1 1 ?c] by simp
  then show ?thesis by (simp add: heap_inv_iff)
qed

lemma heap_inv_pop:
  assumes "strict_weak_order (compare q)" "heap_inv (compare q) (container q)"
  shows "heap_inv (compare (pop q)) (container (pop q))"
  using assms heap_inv_pop_list [of "compare q" "container q"]
  by (simp add: pop_def Let_def size_pq_def)

subsection \<open>heapify\<close>

lemma heapify_loop_heap:
  assumes swo: "strict_weak_order cmp"
  shows "heap_above cmp c (Suc i) \<Longrightarrow> heap_above cmp (heapify_loop cmp c i) 1"
proof (induction i arbitrary: c)
  case 0
  then show ?case by (simp add: heapify_loop.simps)
next
  case (Suc i)
  have "sift_pre cmp c (Suc i) (Suc i)"
    unfolding sift_pre_def
  proof (intro conjI allI impI)
    fix k assume "2 \<le> k \<and> k \<le> length c \<and> Suc i \<le> k div 2 \<and> k div 2 \<noteq> Suc i"
    then show "edge_ok cmp c k" using Suc.prems by (simp add: heap_above_def)
  next
    fix k assume "Suc i \<le> Suc i div 2 \<and> 1 \<le> Suc i div 2"
    then have False by presburger
    then show "\<not> cmp (at c (Suc i div 2)) (at c k)" ..
  qed
  then have "heap_above cmp (snd (percolateDown cmp c (Suc i))) (Suc i)"
    using sift_down [OF swo, of "Suc i" "Suc i" c] by simp
  then have "heap_above cmp (heapify_loop cmp (snd (percolateDown cmp c (Suc i))) i) 1"
    by (rule Suc.IH)
  then show ?case by (subst heapify_loop.simps) simp
qed

lemma heap_inv_heapify:
  assumes swo: "strict_weak_order cmp"
  shows "heap_inv cmp (heapify cmp c)"
proof -
  have "heap_above cmp c (Suc (length c div 2))"
    unfolding heap_above_def
  proof (intro allI impI)
    fix k assume "2 \<le> k \<and> k \<le> length c \<and> Suc (length c div 2) \<le> k div 2"
    then have False by presburger
    then show "edge_ok cmp c k" ..
  qed
  then show ?thesis
    using heapify_loop_heap [OF swo] by (simp add: heapify_def heap_inv_iff)
qed

lemma length_heapify_loop [simp]: "length (heapify_loop cmp c i) = length c"
  by (induction i arbitrary: c) (simp_all add: heapify_loop.simps)

lemma mset_heapify_loop [simp]: "mset (heapify_loop cmp c i) = mset c"
  by (induction i arbitrary: c) (simp_all add: heapify_loop.simps)

lemma mset_heapify [simp]: "mset (heapify cmp c) = mset c"
  by (simp add: heapify_def)

subsection \<open>push\<close>

definition up_pre :: "('a \<Rightarrow> 'a \<Rightarrow> bool) \<Rightarrow> 'a list \<Rightarrow> nat \<Rightarrow> bool" where
  "up_pre cmp c j \<longleftrightarrow>
     1 \<le> j \<and> j \<le> length c \<and>
     (\<forall>k. 2 \<le> k \<and> k \<le> length c \<and> k \<noteq> j \<longrightarrow> edge_ok cmp c k) \<and>
     (1 \<le> j div 2 \<longrightarrow>
        (\<forall>k. k \<le> length c \<and> k div 2 = j \<longrightarrow> \<not> cmp (at c (j div 2)) (at c k)))"

lemma up_pre_no_violation:
  assumes pre: "up_pre cmp c j" and p: "1 \<le> j div 2"
    and ok: "\<not> cmp (at c (j div 2)) (at c j)"
  shows "percolateDown cmp c (j div 2) = (False, c)" and "heap_above cmp c 1"
proof -
  have all: "edge_ok cmp c k" if "2 \<le> k" "k \<le> length c" for k
    using that pre ok by (cases "k = j") (auto simp: up_pre_def edge_ok_def)
  show "heap_above cmp c 1" using all by (simp add: heap_above_def)
  let ?b = "bigger_child cmp c (j div 2)"
  have "2 \<le> ?b" using p by (simp add: bigger_child_def)
  then have "edge_ok cmp c ?b" if "?b \<le> length c" using that by (rule all)
  then have "\<not> (?b \<le> length c \<and> cmp (at c (j div 2)) (at c ?b))"
    by (auto simp: edge_ok_def bigger_child_parent)
  with p show "percolateDown cmp c (j div 2) = (False, c)" by (rule percolateDown_stay)
qed

lemma up_pre_violation:
  assumes swo: "strict_weak_order cmp"
    and pre: "up_pre cmp c j" and p: "1 \<le> j div 2"
    and viol: "cmp (at c (j div 2)) (at c j)"
  shows "percolateDown cmp c (j div 2) = (True, swap_elems c (j div 2 - 1) (j - 1))"
    and "up_pre cmp (swap_elems c (j div 2 - 1) (j - 1)) (j div 2)"
proof -
  define p' where "p' = j div 2"
  define c' where "c' = swap_elems c (p' - 1) (j - 1)"
  have j: "1 \<le> j" "j \<le> length c" "2 \<le> j" "p' < j" "1 \<le> p'" "p' \<le> length c" "j div 2 = p'"
    using pre p by (auto simp: up_pre_def p'_def)
  have a: "edge_ok cmp c k" if "2 \<le> k" "k \<le> length c" "k \<noteq> j" for k
    using pre that by (simp add: up_pre_def)
  have b: "\<not> cmp (at c p') (at c k)" if "k \<le> length c" "k div 2 = j" for k
    using pre that p by (simp add: up_pre_def p'_def)
  have viol': "cmp (at c p') (at c j)" using viol by (simp add: p'_def)
  have at': "at c' x = (if x = j then at c p' else if x = p' then at c j else at c x)"
    if "1 \<le> x" for x
    unfolding c'_def using j(5,6,1,2) that by (rule at_swap_elems)
  have len: "length c' = length c" by (simp add: c'_def)
  have dom: "bigger_child cmp c p' \<le> length c"
    "\<not> cmp (at c (bigger_child cmp c p')) (at c k)" if "k div 2 = p'" "k \<le> length c" for k
    using bigger_child_dominates [OF swo that] by simp_all
  have big: "bigger_child cmp c p' = j"
  proof (rule ccontr)
    assume ne: "bigger_child cmp c p' \<noteq> j"
    have "2 \<le> bigger_child cmp c p'" using j(5) by (simp add: bigger_child_def)
    with ne dom(1) [OF j(7) j(2)] have "edge_ok cmp c (bigger_child cmp c p')" by (intro a)
    then have "\<not> cmp (at c p') (at c (bigger_child cmp c p'))"
      by (simp add: edge_ok_def bigger_child_parent)
    with dom(2) [OF j(7) j(2)] have "\<not> cmp (at c p') (at c j)"
      using swo by (metis swo_negtrans)
    with viol' show False by contradiction
  qed
  have atj: "at c' j = at c p'" using at' [of j] j by simp
  have atp: "at c' p' = at c j" using at' [of p'] j by simp
  have stay: "percolateDown cmp c' j = (False, c')"
  proof (rule percolateDown_stay [OF j(1)])
    let ?b = "bigger_child cmp c' j"
    have "\<not> cmp (at c' j) (at c' ?b)" if bl: "?b \<le> length c'"
    proof -
      have gt: "j < ?b" using j(1) by (rule bigger_child_gt)
      then have "at c' ?b = at c ?b" using at' [of ?b] j by simp
      moreover have "\<not> cmp (at c p') (at c ?b)"
        using bl by (intro b) (simp_all add: len bigger_child_parent)
      ultimately show ?thesis using atj by simp
    qed
    then show "\<not> (?b \<le> length c' \<and> cmp (at c' j) (at c' ?b))" by blast
  qed
  have "percolateDown cmp c p' = (True, snd (percolateDown cmp c' j))"
    using percolateDown_swap [OF j(5), of cmp c] big j(2) viol' by (simp add: c'_def)
  with stay show "percolateDown cmp c (j div 2) = (True, swap_elems c (j div 2 - 1) (j - 1))"
    by (simp add: c'_def p'_def)
  have A: "edge_ok cmp c' k" if k: "2 \<le> k" "k \<le> length c" "k \<noteq> p'" for k
  proof -
    have k1: "1 \<le> k" "1 \<le> k div 2" using k(1) by simp_all
    consider (new) "k = j" | (sibling) "k \<noteq> j" "k div 2 = p'" | (below) "k div 2 = j"
      | (other) "k \<noteq> j" "k div 2 \<noteq> p'" "k div 2 \<noteq> j" by blast
    then show ?thesis
    proof cases
      case new
      have "\<not> cmp (at c j) (at c p')" using swo viol' by (rule swo_asym)
      with new atj atp j(7) show ?thesis by (simp add: edge_ok_def)
    next
      case sibling
      have "at c' k = at c k" using at' [of k] k1 k(3) sibling by simp
      moreover have "\<not> cmp (at c j) (at c k)"
        using dom(2) [OF sibling(2) k(2)] big by simp
      ultimately show ?thesis using sibling atp by (simp add: edge_ok_def)
    next
      case below
      then have "j < k" using j(1) by presburger
      then have "at c' k = at c k" using at' [of k] k1 k(3) by simp
      moreover have "\<not> cmp (at c p') (at c k)" using k(2) below by (rule b)
      ultimately show ?thesis using below atj by (simp add: edge_ok_def)
    next
      case other
      have "at c' k = at c k" using at' [of k] k1 k(3) other by simp
      moreover have "at c' (k div 2) = at c (k div 2)" using at' [of "k div 2"] k1 other by simp
      moreover have "edge_ok cmp c k" using k(1,2) other(1) by (rule a)
      ultimately show ?thesis by (simp add: edge_ok_def)
    qed
  qed
  have B: "\<not> cmp (at c' (p' div 2)) (at c' k)" if g: "1 \<le> p' div 2" and k: "k \<le> length c" "k div 2 = p'" for k
  proof -
    have p2: "2 \<le> p'" "p' \<noteq> j" "p' div 2 \<noteq> j" "p' div 2 \<noteq> p'" using g j(4) by auto
    have "at c' (p' div 2) = at c (p' div 2)" using at' [of "p' div 2"] g p2 by simp
    moreover have gp: "\<not> cmp (at c (p' div 2)) (at c p')"
      using a [OF p2(1) j(6) p2(2)] by (simp add: edge_ok_def)
    moreover have "\<not> cmp (at c (p' div 2)) (at c' k)"
    proof (cases "k = j")
      case True
      with gp atj show ?thesis by simp
    next
      case False
      have k2: "2 \<le> k" "k \<noteq> p'" "1 \<le> k" using k(2) j(5) by auto
      have "at c' k = at c k" using at' [of k] k2 False by simp
      moreover have "\<not> cmp (at c p') (at c k)"
        using a [OF k2(1) k(1) False] k(2) by (simp add: edge_ok_def)
      ultimately show ?thesis using gp swo by (metis swo_negtrans)
    qed
    ultimately show ?thesis by simp
  qed
  show "up_pre cmp (swap_elems c (j div 2 - 1) (j - 1)) (j div 2)"
    unfolding up_pre_def p'_def [symmetric] c'_def [symmetric]
    using A B j by (simp add: len)
qed

lemma push_loop_heap:
  assumes swo: "strict_weak_order cmp"
  shows "up_pre cmp c j \<Longrightarrow> heap_above cmp (push_loop cmp c (j div 2)) 1"
proof (induction j arbitrary: c rule: less_induct)
  case (less j)
  show ?case
  proof (cases "j div 2 = 0")
    case True
    then have "k \<noteq> j" if "2 \<le> k" for k using that by auto
    then have "heap_above cmp c 1" using less.prems by (simp add: up_pre_def heap_above_def)
    with True show ?thesis by (simp add: push_loop.simps)
  next
    case False
    then have p: "1 \<le> j div 2" by simp
    show ?thesis
    proof (cases "cmp (at c (j div 2)) (at c j)")
      case False
      from up_pre_no_violation [OF less.prems p False] \<open>j div 2 \<noteq> 0\<close>
      show ?thesis by (simp add: push_loop.simps [of cmp c])
    next
      case True
      note v = up_pre_violation [OF swo less.prems p True]
      have "j div 2 < j" using p by simp
      then have "heap_above cmp (push_loop cmp (swap_elems c (j div 2 - 1) (j - 1)) (j div 2 div 2)) 1"
        using v(2) by (rule less.IH)
      with v(1) \<open>j div 2 \<noteq> 0\<close> show ?thesis by (simp add: push_loop.simps [of cmp c])
    qed
  qed
qed

lemma at_append: "1 \<le> k \<Longrightarrow> k \<le> length c \<Longrightarrow> at (c @ [t]) k = at c k"
  by (auto simp: at_def nth_append)

lemma heap_inv_push_list:
  assumes swo: "strict_weak_order cmp" and h: "heap_inv cmp c"
  shows "heap_inv cmp (push_loop cmp (c @ [t]) (length (c @ [t]) div 2))"
proof -
  have "up_pre cmp (c @ [t]) (length (c @ [t]))"
    unfolding up_pre_def
  proof (intro conjI allI impI)
    fix k assume k: "2 \<le> k \<and> k \<le> length (c @ [t]) \<and> k \<noteq> length (c @ [t])"
    then have kl: "k \<le> length c" "1 \<le> k" "1 \<le> k div 2" "k div 2 \<le> length c" by auto
    then have "edge_ok cmp c k" using h k by (simp add: heap_inv_iff heap_above_def)
    then show "edge_ok cmp (c @ [t]) k" using kl by (simp add: edge_ok_def at_append)
  next
    fix k assume "k \<le> length (c @ [t]) \<and> k div 2 = length (c @ [t])"
    then have False by auto
    then show "\<not> cmp (at (c @ [t]) (length (c @ [t]) div 2)) (at (c @ [t]) k)" ..
  qed simp_all
  then show ?thesis using push_loop_heap [OF swo] by (simp only: heap_inv_iff)
qed

lemma heap_inv_push:
  assumes "strict_weak_order (compare q)" "heap_inv (compare q) (container q)"
  shows "heap_inv (compare (push q t)) (container (push q t))"
  using heap_inv_push_list [OF assms] by (simp add: push_def Let_def)

lemma push_loop_unfold:
  "i \<noteq> 0 \<Longrightarrow> push_loop cmp c i =
     (if fst (percolateDown cmp c i)
      then push_loop cmp (snd (percolateDown cmp c i)) (i div 2)
      else snd (percolateDown cmp c i))"
  by (subst push_loop.simps) (simp split: prod.splits)

lemma length_push_loop [simp]: "length (push_loop cmp c i) = length c"
proof (induction i arbitrary: c rule: less_induct)
  case (less i)
  show ?case
  proof (cases "i = 0")
    case True then show ?thesis by (simp add: push_loop.simps)
  next
    case False
    then have "i div 2 < i" by simp
    from less.IH [OF this] False show ?thesis by (simp add: push_loop_unfold)
  qed
qed

lemma mset_push_loop [simp]: "mset (push_loop cmp c i) = mset c"
proof (induction i arbitrary: c rule: less_induct)
  case (less i)
  show ?case
  proof (cases "i = 0")
    case True then show ?thesis by (simp add: push_loop.simps)
  next
    case False
    then have "i div 2 < i" by simp
    from less.IH [OF this] False show ?thesis by (simp add: push_loop_unfold)
  qed
qed

section \<open>Emptying a queue\<close>

lemma heap_top_maximal:
  assumes swo: "strict_weak_order cmp" and h: "heap_above cmp c 1"
  shows "1 \<le> k \<Longrightarrow> k \<le> length c \<Longrightarrow> \<not> cmp (at c 1) (at c k)"
proof (induction k rule: less_induct)
  case (less k)
  show ?case
  proof (cases "k = 1")
    case True
    with swo show ?thesis by (simp add: swo_irrefl)
  next
    case False
    with less.prems have k: "2 \<le> k" "k div 2 < k" "1 \<le> k div 2" "k div 2 \<le> length c" by auto
    have "\<not> cmp (at c 1) (at c (k div 2))" using k by (intro less.IH)
    moreover have "\<not> cmp (at c (k div 2)) (at c k)"
      using h k less.prems by (simp add: heap_above_def edge_ok_def)
    ultimately show ?thesis using swo by (metis swo_negtrans)
  qed
qed

lemma heap_inv_top_maximal:
  assumes swo: "strict_weak_order cmp" and h: "heap_inv cmp c" and x: "x \<in> set c"
  shows "\<not> cmp (c ! 0) x"
proof -
  from x obtain n where n: "n < length c" "x = c ! n" by (auto simp: in_set_conv_nth)
  have "\<not> cmp (at c 1) (at c (Suc n))"
    using swo h n(1) by (intro heap_top_maximal) (simp_all add: heap_inv_iff)
  with n show ?thesis by (simp add: at_def)
qed

lemma compare_push [simp]: "compare (push q t) = compare q"
  by (simp add: push_def Let_def)

lemma compare_pop [simp]: "compare (pop q) = compare q"
  by (simp add: pop_def Let_def)

lemma size_push [simp]: "size_pq (push q t) = Suc (size_pq q)"
  by (simp add: push_def size_pq_def Let_def)

lemma size_pop: "size_pq (pop q) = size_pq q - 1"
  by (simp add: pop_def size_pq_def empty_pq_def Let_def)

lemma mset_push [simp]: "mset (container (push q t)) = add_mset t (mset (container q))"
  by (simp add: push_def Let_def)

lemma mset_pop:
  assumes "\<not> empty_pq q"
  shows "add_mset (container q ! 0) (mset (container (pop q))) = mset (container q)"
proof -
  let ?c = "container q"
  let ?s = "swap_elems ?c 0 (length ?c - 1)"
  from assms have ne: "?c \<noteq> []" by (simp add: empty_pq_def)
  then have ne': "?s \<noteq> []" by (simp add: swap_elems_def)
  have l: "last ?s = ?c ! 0"
    using ne by (simp add: last_conv_nth swap_elems_def)
  have "mset ?s = mset ?c" using ne by (intro mset_swap_elems) simp_all
  moreover have "mset ?s = add_mset (last ?s) (mset (butlast ?s))"
    using ne' by (metis append_butlast_last_id mset.simps(2) mset_append union_mset_add_mset_right add.right_neutral mset.simps(1))
  ultimately show ?thesis
    using assms l by (simp add: pop_def Let_def size_pq_def)
qed

lemma size_pop_less: "\<not> empty_pq q \<Longrightarrow> size_pq (pop q) < size_pq q"
  by (simp add: pop_def size_pq_def empty_pq_def Let_def)

text \<open>The caller's loop: \<open>while (!q.empty()) { out.push_back(q.top()); q.pop(); }\<close>\<close>

function pop_all :: "'a priority_queue \<Rightarrow> 'a list" where
  "pop_all q =
     (if empty_pq q then []
      else case top_pq q of
             Inl e \<Rightarrow> []
           | Inr x \<Rightarrow> x # pop_all (pop q))"
  by pat_completeness auto
termination
  by (relation "measure size_pq") (simp_all add: size_pop_less)

declare pop_all.simps [simp del]

lemma pop_all_empty: "empty_pq q \<Longrightarrow> pop_all q = []"
  by (simp add: pop_all.simps)

lemma pop_all_step: "\<not> empty_pq q \<Longrightarrow> pop_all q = container q ! 0 # pop_all (pop q)"
  by (subst pop_all.simps) (simp add: top_pq_def)

lemma mset_pop_all: "mset (pop_all q) = mset (container q)"
proof (induction q rule: pop_all.induct)
  case (1 q)
  show ?case
  proof (cases "empty_pq q")
    case True
    then show ?thesis by (simp add: pop_all_empty empty_pq_def)
  next
    case False
    then have "top_pq q = Inr (container q ! 0)" by (simp add: top_pq_def)
    with False have "mset (pop_all (pop q)) = mset (container (pop q))" by (rule "1.IH")
    with False show ?thesis by (simp add: pop_all_step mset_pop)
  qed
qed

lemma sorted_pop_all:
  assumes swo: "strict_weak_order cmp"
  shows "compare q = cmp \<Longrightarrow> pq_inv q \<Longrightarrow> sorted_wrt (\<lambda>a b. \<not> cmp a b) (pop_all q)"
proof (induction q rule: pop_all.induct)
  case (1 q)
  show ?case
  proof (cases "empty_pq q")
    case True
    then show ?thesis by (simp add: pop_all_empty)
  next
    case False
    then have t: "top_pq q = Inr (container q ! 0)" by (simp add: top_pq_def)
    have inv: "pq_inv (pop q)"
      using heap_inv_pop [of q] swo "1.prems" by (simp add: pq_inv_def)
    have "sorted_wrt (\<lambda>a b. \<not> cmp a b) (pop_all (pop q))"
      using "1.IH" [OF False t] "1.prems"(1) inv by simp
    moreover have "\<not> cmp (container q ! 0) x" if "x \<in> set (pop_all (pop q))" for x
    proof -
      have "x \<in># mset (pop_all (pop q))" using that by simp
      then have "x \<in># mset (container (pop q))" by (simp only: mset_pop_all)
      then have "x \<in># mset (container q)"
        using mset_pop [OF False] by (metis insert_iff set_mset_add_mset_insert)
      then have "x \<in> set (container q)" by simp
      with swo "1.prems" show ?thesis
        by (intro heap_inv_top_maximal) (simp_all add: pq_inv_def)
    qed
    ultimately show ?thesis using False by (simp add: pop_all_step)
  qed
qed

section \<open>Sequences of calls\<close>

datatype 'a call = Push 'a | Pop

fun apply_call :: "'a priority_queue \<Rightarrow> 'a call \<Rightarrow> 'a priority_queue" where
  "apply_call q (Push t) = push q t"
| "apply_call q Pop = pop q"

lemma compare_apply_call [simp]: "compare (apply_call q x) = compare q"
  by (cases x) simp_all

lemma pq_inv_apply_call:
  "strict_weak_order (compare q) \<Longrightarrow> pq_inv q \<Longrightarrow> pq_inv (apply_call q x)"
  using heap_inv_push [of q] heap_inv_pop [of q] by (cases x) (simp_all add: pq_inv_def)

lemma pq_inv_calls:
  "strict_weak_order (compare q) \<Longrightarrow> pq_inv q \<Longrightarrow>
     pq_inv (foldl apply_call q xs) \<and> compare (foldl apply_call q xs) = compare q"
  by (induction xs arbitrary: q) (simp_all add: pq_inv_apply_call)

lemma pq_inv_default [simp]: "pq_inv (pq_default cmp)"
  by (simp add: pq_inv_def pq_default_def)

lemma compare_from_range [simp]: "compare (pq_from_range xs cmp) = cmp"
  unfolding pq_from_range_def
  by (induction xs rule: rev_induct) (simp_all add: pq_default_def)

lemma mset_from_range [simp]: "mset (container (pq_from_range xs cmp)) = mset xs"
  unfolding pq_from_range_def
  by (induction xs rule: rev_induct) (simp_all add: pq_default_def)

lemma pq_inv_from_range: "strict_weak_order cmp \<Longrightarrow> pq_inv (pq_from_range xs cmp)"
proof (induction xs rule: rev_induct)
  case Nil
  then show ?case by (simp add: pq_from_range_def)
next
  case (snoc x xs)
  then have "pq_inv (pq_from_range xs cmp)" by simp
  with snoc.prems have "pq_inv (push (pq_from_range xs cmp) x)"
    using heap_inv_push [of "pq_from_range xs cmp" x] by (simp add: pq_inv_def)
  then show ?case by (simp add: pq_from_range_def)
qed

lemma compare_from_container_move [simp]: "compare (pq_from_container_move cmp xs) = cmp"
  by (simp add: pq_from_container_move_def)

lemma mset_from_container_move [simp]:
  "mset (container (pq_from_container_move cmp xs)) = mset xs"
  by (simp add: pq_from_container_move_def)

lemma pq_inv_from_container_move:
  "strict_weak_order cmp \<Longrightarrow> pq_inv (pq_from_container_move cmp xs)"
  by (simp add: pq_inv_def pq_from_container_move_def heap_inv_heapify)

lemma pop_all_sorted_perm:
  assumes "strict_weak_order cmp" "compare q = cmp" "pq_inv q"
  shows "mset (pop_all q) = mset (container q) \<and> non_increasing cmp (pop_all q)"
  using assms sorted_pop_all [of cmp q] by (simp add: mset_pop_all non_increasing_def)

section \<open>Sequences in order with the same elements\<close>

text \<open>
  Two sequences in non-increasing order that hold the same multiset agree position by
  position up to ties; under a total ordering they are equal.
\<close>

lemma filter_above_le:
  assumes swo: "strict_weak_order cmp" and s: "non_increasing cmp xs" and i: "i < length xs"
  shows "length (filter (\<lambda>z. cmp (xs ! i) z) xs) \<le> i"
proof -
  have "\<not> cmp (xs ! i) z" if "z \<in> set (drop i xs)" for z
  proof -
    from that obtain j where j: "j < length xs - i" "z = xs ! (i + j)"
      by (auto simp: in_set_conv_nth)
    show ?thesis
    proof (cases "j = 0")
      case True
      with j swo show ?thesis by (simp add: swo_irrefl)
    next
      case False
      with j s show ?thesis
        by (simp add: non_increasing_def sorted_wrt_iff_nth_less)
    qed
  qed
  then have "filter (\<lambda>z. cmp (xs ! i) z) (drop i xs) = []" by (simp add: filter_empty_conv)
  moreover have "filter (\<lambda>z. cmp (xs ! i) z) xs =
      filter (\<lambda>z. cmp (xs ! i) z) (take i xs) @ filter (\<lambda>z. cmp (xs ! i) z) (drop i xs)"
    by (metis append_take_drop_id filter_append)
  ultimately have "length (filter (\<lambda>z. cmp (xs ! i) z) xs) \<le> length (take i xs)"
    by (simp only: append_Nil2 length_filter_le)
  with i show ?thesis by simp
qed

lemma filter_not_below_ge:
  assumes swo: "strict_weak_order cmp" and s: "non_increasing cmp xs" and i: "i < length xs"
  shows "Suc i \<le> length (filter (\<lambda>z. \<not> cmp z (xs ! i)) xs)"
proof -
  have "\<not> cmp z (xs ! i)" if "z \<in> set (take (Suc i) xs)" for z
  proof -
    from that i obtain j where j: "j < Suc i" "z = xs ! j"
      by (auto simp: in_set_conv_nth)
    show ?thesis
    proof (cases "j = i")
      case True
      with j swo show ?thesis by (simp add: swo_irrefl)
    next
      case False
      with j s i show ?thesis
        by (simp add: non_increasing_def sorted_wrt_iff_nth_less)
    qed
  qed
  then have "filter (\<lambda>z. \<not> cmp z (xs ! i)) (take (Suc i) xs) = take (Suc i) xs"
    by (simp only: filter_id_conv) blast
  moreover have "filter (\<lambda>z. \<not> cmp z (xs ! i)) xs =
      filter (\<lambda>z. \<not> cmp z (xs ! i)) (take (Suc i) xs) @
      filter (\<lambda>z. \<not> cmp z (xs ! i)) (drop (Suc i) xs)"
    by (metis append_take_drop_id filter_append)
  ultimately have "length (take (Suc i) xs) \<le> length (filter (\<lambda>z. \<not> cmp z (xs ! i)) xs)"
    by simp
  with i show ?thesis by simp
qed

lemma length_filter_mset_eq:
  assumes "mset xs = mset ys"
  shows "length (filter P xs) = length (filter P ys)"
proof -
  have "mset (filter P xs) = mset (filter P ys)" using assms by (simp only: mset_filter)
  then show ?thesis by (rule mset_eq_length)
qed

lemma length_filter_mono:
  assumes "\<And>z. Q z \<Longrightarrow> P z"
  shows "length (filter Q xs) \<le> length (filter P xs)"
  using assms by (induction xs) auto

lemma sorted_not_below:
  assumes swo: "strict_weak_order cmp"
    and sx: "non_increasing cmp xs" and sy: "non_increasing cmp ys"
    and m: "mset xs = mset ys" and i: "i < length xs"
  shows "\<not> cmp (xs ! i) (ys ! i)"
proof
  assume lt: "cmp (xs ! i) (ys ! i)"
  have len: "length ys = length xs" using m by (metis mset_eq_length)
  have "cmp (xs ! i) z" if "\<not> cmp z (ys ! i)" for z
    using swo lt that by (metis swo_negtrans)
  then have "length (filter (\<lambda>z. \<not> cmp z (ys ! i)) xs) \<le> length (filter (\<lambda>z. cmp (xs ! i) z) xs)"
    by (rule length_filter_mono)
  moreover have "length (filter (\<lambda>z. \<not> cmp z (ys ! i)) xs) = length (filter (\<lambda>z. \<not> cmp z (ys ! i)) ys)"
    using m by (rule length_filter_mset_eq)
  moreover have "Suc i \<le> length (filter (\<lambda>z. \<not> cmp z (ys ! i)) ys)"
    using swo sy i len by (intro filter_not_below_ge) simp_all
  moreover have "length (filter (\<lambda>z. cmp (xs ! i) z) xs) \<le> i"
    using swo sx i by (rule filter_above_le)
  ultimately show False by simp
qed

lemma sorted_ties:
  assumes swo: "strict_weak_order cmp"
    and sx: "non_increasing cmp xs" and sy: "non_increasing cmp ys"
    and m: "mset xs = mset ys"
  shows "list_all2 (ties cmp) xs ys"
proof -
  have len: "length xs = length ys" using m by (rule mset_eq_length)
  have "ties cmp (xs ! i) (ys ! i)" if "i < length xs" for i
    using sorted_not_below [OF swo sx sy m that]
      sorted_not_below [OF swo sy sx m [symmetric], of i] that len
    by (simp add: ties_def)
  with len show ?thesis by (simp add: list_all2_conv_all_nth)
qed

lemma sorted_total_unique:
  assumes "strict_weak_order cmp" "total_ordering cmp"
    and "non_increasing cmp xs" "non_increasing cmp ys" "mset xs = mset ys"
  shows "xs = ys"
proof -
  have "list_all2 (ties cmp) xs ys" using assms(1,3,4,5) by (rule sorted_ties)
  then have "list_all2 (=) xs ys"
    using assms(2) by (auto simp: total_ordering_def elim!: list_all2_mono)
  then show ?thesis by (simp add: list.rel_eq)
qed

lemma top_pq_pop_all:
  "top_pq q = (case pop_all q of [] \<Rightarrow> Inl OutOfRange | x # _ \<Rightarrow> Inr x)"
  by (cases "empty_pq q") (simp_all add: pop_all_empty pop_all_step top_pq_def)

lemma pop_all_constructions:
  assumes swo: "strict_weak_order cmp" and m: "mset xs = mset ys"
  shows "list_all2 (ties cmp) (pop_all (pq_from_range xs cmp))
           (pop_all (pq_from_container_move cmp ys))"
proof -
  have 1: "mset (pop_all (pq_from_range xs cmp)) = mset xs \<and>
           non_increasing cmp (pop_all (pq_from_range xs cmp))"
    using pop_all_sorted_perm [OF swo, of "pq_from_range xs cmp"] pq_inv_from_range [OF swo]
    by simp
  have 2: "mset (pop_all (pq_from_container_move cmp ys)) = mset ys \<and>
           non_increasing cmp (pop_all (pq_from_container_move cmp ys))"
    using pop_all_sorted_perm [OF swo, of "pq_from_container_move cmp ys"]
      pq_inv_from_container_move [OF swo] by simp
  from 1 2 m show ?thesis by (intro sorted_ties [OF swo]) simp_all
qed

lemma top_constructions:
  assumes swo: "strict_weak_order cmp" and m: "mset xs = mset ys"
  shows "rel_sum (=) (ties cmp) (top_pq (pq_from_range xs cmp))
           (top_pq (pq_from_container_move cmp ys))"
  using pop_all_constructions [OF assms]
  by (auto simp: top_pq_pop_all split: list.splits)

text \<open>With \<open>std::less\<close> and \<open>std::greater\<close> the sequence popped is the sorted one.\<close>

lemma non_increasing_greater_sorted:
  "non_increasing greater_cmp xs \<longleftrightarrow> sorted xs"
proof -
  have "(\<lambda>a b :: 'a. \<not> greater_cmp a b) = (\<le>)"
    by (auto simp: greater_cmp_def fun_eq_iff)
  then show ?thesis by (simp add: non_increasing_def)
qed

lemma non_increasing_less_sorted:
  "non_increasing less_cmp xs \<longleftrightarrow> sorted (rev xs)"
proof -
  have "(\<lambda>a b :: 'a. \<not> less_cmp a b) = (\<ge>)"
    by (auto simp: less_cmp_def fun_eq_iff)
  then show ?thesis by (simp add: non_increasing_def sorted_wrt_rev)
qed

lemma pop_all_greater_sort:
  assumes "compare q = greater_cmp" "pq_inv q"
  shows "pop_all q = sort (container q)"
proof -
  have "mset (pop_all q) = mset (container q) \<and> non_increasing greater_cmp (pop_all q)"
    using swo_greater_cmp assms by (rule pop_all_sorted_perm)
  then have "sort (container q) = pop_all q"
    by (intro properties_for_sort) (simp_all add: non_increasing_greater_sorted)
  then show ?thesis by simp
qed

lemma pop_all_less_sort:
  assumes "compare q = less_cmp" "pq_inv q"
  shows "pop_all q = rev (sort (container q))"
proof -
  have "mset (pop_all q) = mset (container q) \<and> non_increasing less_cmp (pop_all q)"
    using swo_less_cmp assms by (rule pop_all_sorted_perm)
  then have "sort (container q) = rev (pop_all q)"
    by (intro properties_for_sort) (simp_all add: non_increasing_less_sorted)
  then show ?thesis by simp
qed

lemma sort_mset_cong: "mset xs = mset ys \<Longrightarrow> sort xs = sort ys"
  by (rule properties_for_sort) simp_all

lemma pop_all_range_greater:
  "pop_all (pq_from_range xs greater_cmp) = sort xs"
proof -
  have "pop_all (pq_from_range xs greater_cmp) = sort (container (pq_from_range xs greater_cmp))"
    using pq_inv_from_range [OF swo_greater_cmp, of xs] by (intro pop_all_greater_sort) simp_all
  also have "\<dots> = sort xs" by (rule sort_mset_cong) simp
  finally show ?thesis .
qed

lemma pop_all_move_greater:
  "pop_all (pq_from_container_move greater_cmp xs) = sort xs"
proof -
  have "pop_all (pq_from_container_move greater_cmp xs)
      = sort (container (pq_from_container_move greater_cmp xs))"
    using pq_inv_from_container_move [OF swo_greater_cmp, of xs]
    by (intro pop_all_greater_sort) simp_all
  also have "\<dots> = sort xs" by (rule sort_mset_cong) simp
  finally show ?thesis .
qed

lemma pop_all_range_less:
  "pop_all (pq_from_range xs less_cmp) = rev (sort xs)"
proof -
  have "pop_all (pq_from_range xs less_cmp) = rev (sort (container (pq_from_range xs less_cmp)))"
    using pq_inv_from_range [OF swo_less_cmp, of xs] by (intro pop_all_less_sort) simp_all
  also have "sort (container (pq_from_range xs less_cmp)) = sort xs"
    by (rule sort_mset_cong) simp
  finally show ?thesis .
qed

lemma pop_all_move_less:
  "pop_all (pq_from_container_move less_cmp xs) = rev (sort xs)"
proof -
  have "pop_all (pq_from_container_move less_cmp xs)
      = rev (sort (container (pq_from_container_move less_cmp xs)))"
    using pq_inv_from_container_move [OF swo_less_cmp, of xs]
    by (intro pop_all_less_sort) simp_all
  also have "sort (container (pq_from_container_move less_cmp xs)) = sort xs"
    by (rule sort_mset_cong) simp
  finally show ?thesis .
qed

section \<open>The public interface as one transition function\<close>

text \<open>
  The public member functions of the class, and what a call returns: the error thrown, or
  the value returned together with the state after the call. \<open>top\<close>, \<open>size\<close> and \<open>empty\<close>
  are \<open>const\<close> member functions. Failure of the storage to grow inside \<open>push_back\<close> is
  outside this model.
\<close>

datatype 'a operation = Top | PushOp 'a | PopOp | Size | Empty

datatype 'a reply = Element 'a | Count nat | Flag bool | Nothing

fun exec :: "'a priority_queue \<Rightarrow> 'a operation \<Rightarrow> error + 'a reply \<times> 'a priority_queue" where
  "exec q Top = (case top_pq q of Inl e \<Rightarrow> Inl e | Inr x \<Rightarrow> Inr (Element x, q))"
| "exec q (PushOp t) = Inr (Nothing, push q t)"
| "exec q PopOp = Inr (Nothing, pop q)"
| "exec q Size = Inr (Count (size_pq q), q)"
| "exec q Empty = Inr (Flag (empty_pq q), q)"

lemma heap_inv_example: "heap_inv less_cmp [9, 8, 5 :: int]"
  by (simp add: heap_inv_def less_cmp_def)

section \<open>Machine-level semantics: \<open>size_t\<close> arithmetic and checked accesses\<close>

text \<open>
  The functions above compute with natural numbers and read the storage with \<open>!\<close>. This
  section writes out what the machine does: every index is a \<open>size_t\<close>, here 64 bits wide,
  so \<open>indexHeap * 2\<close>, \<open>indexLeft + 1\<close> and \<open>index - 1\<close> wrap around modulo \<open>2 ^ 64\<close>; every
  \<open>container[k]\<close> is an access that is out of bounds unless \<open>k < size()\<close>; and the recursion
  and the loops are not known to end beforehand. A call returns \<open>None\<close> when it does not
  return, \<open>Some (Inl OutOfBounds)\<close> when it accesses the storage out of bounds, and
  \<open>Some (Inr r)\<close> when it returns \<open>r\<close>.
\<close>

datatype fault = OutOfBounds

definition sz :: "nat \<Rightarrow> nat" where
  "sz n = n mod 2 ^ 64"

definition sz_dec :: "nat \<Rightarrow> nat" where
  "sz_dec n = (n + (2 ^ 64 - 1)) mod 2 ^ 64"

definition read_at :: "'a list \<Rightarrow> nat \<Rightarrow> fault + 'a" where
  "read_at c k = (if k < length c then Inr (c ! k) else Inl OutOfBounds)"

partial_function (option) percolateDown_m ::
  "('a \<Rightarrow> 'a \<Rightarrow> bool) \<Rightarrow> 'a list \<Rightarrow> nat \<Rightarrow> (fault + bool \<times> 'a list) option" where
  "percolateDown_m cmp c indexHeap =
     (let indexLeft = sz (indexHeap * 2);
          indexRight = sz (indexLeft + 1)
      in case (if indexRight \<le> length c
               then case read_at c (sz_dec indexLeft) of
                      Inl f \<Rightarrow> Inl f
                    | Inr l \<Rightarrow>
                        (case read_at c (sz_dec indexRight) of
                           Inl f \<Rightarrow> Inl f
                         | Inr r \<Rightarrow> Inr (if cmp l r then indexRight else indexLeft))
               else Inr indexLeft) of
           Inl f \<Rightarrow> Some (Inl f)
         | Inr indexBigger \<Rightarrow>
             if indexBigger \<le> length c
             then case read_at c (sz_dec indexHeap) of
                    Inl f \<Rightarrow> Some (Inl f)
                  | Inr p \<Rightarrow>
                      (case read_at c (sz_dec indexBigger) of
                         Inl f \<Rightarrow> Some (Inl f)
                       | Inr b \<Rightarrow>
                           if cmp p b
                           then Option.bind
                                  (percolateDown_m cmp
                                     (swap_elems c (sz_dec indexHeap) (sz_dec indexBigger))
                                     indexBigger)
                                  (\<lambda>r. Some (case r of
                                                Inl f \<Rightarrow> Inl f
                                              | Inr (changed, c') \<Rightarrow> Inr (True, c')))
                           else Some (Inr (False, c)))
             else Some (Inr (False, c)))"

partial_function (option) push_loop_m ::
  "('a \<Rightarrow> 'a \<Rightarrow> bool) \<Rightarrow> 'a list \<Rightarrow> nat \<Rightarrow> (fault + 'a list) option" where
  "push_loop_m cmp c index =
     (if index = 0 then Some (Inr c)
      else Option.bind (percolateDown_m cmp c index)
             (\<lambda>r. case r of
                     Inl f \<Rightarrow> Some (Inl f)
                   | Inr (changed, c') \<Rightarrow>
                       if changed then push_loop_m cmp c' (index div 2) else Some (Inr c')))"

partial_function (option) heapify_loop_m ::
  "('a \<Rightarrow> 'a \<Rightarrow> bool) \<Rightarrow> 'a list \<Rightarrow> nat \<Rightarrow> (fault + 'a list) option" where
  "heapify_loop_m cmp c indexHeap =
     (if indexHeap \<ge> 1
      then Option.bind (percolateDown_m cmp c indexHeap)
             (\<lambda>r. case r of
                     Inl f \<Rightarrow> Some (Inl f)
                   | Inr (changed, c') \<Rightarrow> heapify_loop_m cmp c' (sz_dec indexHeap))
      else Some (Inr c))"

definition heapify_m :: "('a \<Rightarrow> 'a \<Rightarrow> bool) \<Rightarrow> 'a list \<Rightarrow> (fault + 'a list) option" where
  "heapify_m cmp c = (let num = length c in heapify_loop_m cmp c (num div 2))"

definition push_m :: "('a \<Rightarrow> 'a \<Rightarrow> bool) \<Rightarrow> 'a list \<Rightarrow> 'a \<Rightarrow> (fault + 'a list) option" where
  "push_m cmp c t = (let c = c @ [t]; index = length c div 2 in push_loop_m cmp c index)"

definition pop_m :: "('a \<Rightarrow> 'a \<Rightarrow> bool) \<Rightarrow> 'a list \<Rightarrow> (fault + 'a list) option" where
  "pop_m cmp c =
     (if c = [] then Some (Inr c)
      else case read_at c 0 of
             Inl f \<Rightarrow> Some (Inl f)
           | Inr front \<Rightarrow>
               (case read_at c (sz_dec (length c)) of
                  Inl f \<Rightarrow> Some (Inl f)
                | Inr back \<Rightarrow>
                    Option.bind
                      (percolateDown_m cmp (butlast (swap_elems c 0 (sz_dec (length c)))) 1)
                      (\<lambda>r. Some (case r of Inl f \<Rightarrow> Inl f | Inr (changed, c') \<Rightarrow> Inr c'))))"

text \<open>
  Where nothing wraps (heap indices below \<open>2 ^ 63\<close> on a storage of fewer than \<open>2 ^ 63\<close>
  elements), the machine-level functions return what the functions on natural numbers
  compute.
\<close>

lemma sz_id: "n < 2 ^ 64 \<Longrightarrow> sz n = n"
  by (simp add: sz_def)

lemma sz_dec_pos: "1 \<le> n \<Longrightarrow> n < 2 ^ 64 \<Longrightarrow> sz_dec n = n - 1"
proof -
  assume n: "1 \<le> n" "n < 2 ^ 64"
  have "n + (2 ^ 64 - 1) = (n - 1) + 2 ^ 64" using n by simp
  then have "sz_dec n = ((n - 1) + 2 ^ 64) mod 2 ^ 64" by (simp only: sz_dec_def)
  also have "\<dots> = (n - 1) mod 2 ^ 64" by (simp only: mod_add_self2)
  also have "\<dots> = n - 1" using n by simp
  finally show ?thesis .
qed

lemma read_at_in: "k < length c \<Longrightarrow> read_at c k = Inr (c ! k)"
  by (simp add: read_at_def)

lemma percolateDown_m_unfold:
  assumes i: "1 \<le> i" "i < 2 ^ 63"
  shows "percolateDown_m cmp c i =
     (if bigger_child cmp c i \<le> length c \<and> cmp (at c i) (at c (bigger_child cmp c i))
      then Option.bind
             (percolateDown_m cmp (swap_elems c (i - 1) (bigger_child cmp c i - 1))
                (bigger_child cmp c i))
             (\<lambda>r. Some (case r of Inl f \<Rightarrow> Inl f | Inr (changed, c') \<Rightarrow> Inr (True, c')))
      else Some (Inr (False, c)))"
proof -
  have l: "sz (i * 2) = i * 2" using i by (intro sz_id) simp
  have r: "sz (i * 2 + 1) = i * 2 + 1" using i by (intro sz_id) simp
  have dl: "sz_dec (i * 2) = i * 2 - 1" using i by (intro sz_dec_pos) simp_all
  have dr: "sz_dec (i * 2 + 1) = i * 2" using i sz_dec_pos [of "i * 2 + 1"] by simp
  have di: "sz_dec i = i - 1" using i by (intro sz_dec_pos) simp_all
  have E: "(if i * 2 + 1 \<le> length c
               then case read_at c (i * 2 - 1) of
                      Inl f \<Rightarrow> Inl f
                    | Inr l \<Rightarrow>
                        (case read_at c (i * 2) of
                           Inl f \<Rightarrow> Inl f
                         | Inr r \<Rightarrow> Inr (if cmp l r then i * 2 + 1 else i * 2))
               else Inr (i * 2)) = Inr (bigger_child cmp c i)"
    by (auto simp: read_at_def bigger_child_def at_def mult.commute)
  have step: "percolateDown_m cmp c i =
      (if bigger_child cmp c i \<le> length c
       then case read_at c (sz_dec i) of
              Inl f \<Rightarrow> Some (Inl f)
            | Inr p \<Rightarrow>
                (case read_at c (sz_dec (bigger_child cmp c i)) of
                   Inl f \<Rightarrow> Some (Inl f)
                 | Inr b \<Rightarrow>
                     if cmp p b
                     then Option.bind
                            (percolateDown_m cmp
                               (swap_elems c (sz_dec i) (sz_dec (bigger_child cmp c i)))
                               (bigger_child cmp c i))
                            (\<lambda>r. Some (case r of
                                          Inl f \<Rightarrow> Inl f
                                        | Inr (changed, c') \<Rightarrow> Inr (True, c')))
                     else Some (Inr (False, c)))
       else Some (Inr (False, c)))"
    by (subst percolateDown_m.simps) (simp only: Let_def l r dl dr E sum.case)
  show ?thesis
  proof (cases "bigger_child cmp c i \<le> length c")
    case False
    then show ?thesis by (simp only: step if_False simp_thms)
  next
    case True
    have gt: "i < bigger_child cmp c i" using i(1) by (rule bigger_child_gt)
    have db: "sz_dec (bigger_child cmp c i) = bigger_child cmp c i - 1"
      using i bigger_child_cases [of cmp c i] by (intro sz_dec_pos) auto
    have ri: "read_at c (i - 1) = Inr (at c i)"
      using True gt i(1) by (simp add: read_at_def at_def)
    have rb: "read_at c (bigger_child cmp c i - 1) = Inr (at c (bigger_child cmp c i))"
      using True gt by (simp add: read_at_def at_def)
    from True show ?thesis by (simp only: step di db ri rb sum.case if_True simp_thms)
  qed
qed

lemma percolateDown_m_stay:
  assumes "1 \<le> i" "i < 2 ^ 63"
    and "\<not> (bigger_child cmp c i \<le> length c \<and> cmp (at c i) (at c (bigger_child cmp c i)))"
  shows "percolateDown_m cmp c i = Some (Inr (False, c))"
  by (simp only: percolateDown_m_unfold [OF assms(1,2)] assms(3) if_False)

lemma percolateDown_m_swap:
  assumes "1 \<le> i" "i < 2 ^ 63"
    and "bigger_child cmp c i \<le> length c" "cmp (at c i) (at c (bigger_child cmp c i))"
  shows "percolateDown_m cmp c i =
           Option.bind
             (percolateDown_m cmp (swap_elems c (i - 1) (bigger_child cmp c i - 1))
                (bigger_child cmp c i))
             (\<lambda>r. Some (case r of Inl f \<Rightarrow> Inl f | Inr (changed, c') \<Rightarrow> Inr (True, c')))"
  by (simp only: percolateDown_m_unfold [OF assms(1,2)] assms(3,4) simp_thms if_True)

lemma percolateDown_m_refines:
  assumes "1 \<le> i"
  shows "i < 2 ^ 63 \<Longrightarrow> length c < 2 ^ 63 \<Longrightarrow>
     percolateDown_m cmp c i = Some (Inr (percolateDown cmp c i))"
  using assms
proof (induction c i rule: percolateDown_induct [where cmp = cmp])
  case (step c i)
  show ?case
  proof (cases "bigger_child cmp c i \<le> length c \<and> cmp (at c i) (at c (bigger_child cmp c i))")
    case False
    have "percolateDown_m cmp c i = Some (Inr (False, c))"
      using step.hyps step.prems(1) False by (rule percolateDown_m_stay)
    moreover have "percolateDown cmp c i = (False, c)"
      using step.hyps False by (rule percolateDown_stay)
    ultimately show ?thesis by simp
  next
    case True
    then have b: "bigger_child cmp c i \<le> length c"
      and v: "cmp (at c i) (at c (bigger_child cmp c i))" by simp_all
    have "bigger_child cmp c i < 2 ^ 63" using b step.prems(2) by simp
    moreover have "length (swap_elems c (i - 1) (bigger_child cmp c i - 1)) < 2 ^ 63"
      using step.prems(2) by simp
    ultimately have "percolateDown_m cmp (swap_elems c (i - 1) (bigger_child cmp c i - 1))
        (bigger_child cmp c i) =
      Some (Inr (percolateDown cmp (swap_elems c (i - 1) (bigger_child cmp c i - 1))
        (bigger_child cmp c i)))"
      by (rule step.IH [OF b v])
    then have "percolateDown_m cmp c i =
      Some (Inr (True, snd (percolateDown cmp (swap_elems c (i - 1) (bigger_child cmp c i - 1))
        (bigger_child cmp c i))))"
      by (simp add: percolateDown_m_swap [OF step.hyps step.prems(1) b v] split: prod.splits)
    then show ?thesis by (simp add: percolateDown_swap [OF step.hyps b v])
  qed
qed

lemma fault_eq [simp]: "(f :: fault) = OutOfBounds"
  by (cases f) simp

lemma percolateDown_m_wrapped:
  assumes i: "i = 0 \<or> 2 ^ 63 \<le> i" "i < 2 ^ 64" and c: "length c < 2 ^ 63"
  shows "percolateDown_m cmp c i = Some (Inl OutOfBounds) \<or>
         percolateDown_m cmp c i = Some (Inr (False, c))"
proof -
  have "length c \<le> sz_dec i"
  proof (cases "i = 0")
    case True
    then have "sz_dec i = 2 ^ 64 - 1" by (simp add: sz_dec_def)
    with c show ?thesis by simp
  next
    case False
    with i have "sz_dec i = i - 1" by (intro sz_dec_pos) simp_all
    with i False c show ?thesis by simp
  qed
  then have "read_at c (sz_dec i) = Inl OutOfBounds" by (simp add: read_at_def)
  then show ?thesis
    by (subst (1 2) percolateDown_m.simps) (simp add: Let_def split: sum.splits)
qed

lemma push_loop_m_refines:
  "i < 2 ^ 63 \<Longrightarrow> length c < 2 ^ 63 \<Longrightarrow> push_loop_m cmp c i = Some (Inr (push_loop cmp c i))"
proof (induction i arbitrary: c rule: less_induct)
  case (less i)
  show ?case
  proof (cases "i = 0")
    case True
    then show ?thesis
      by (subst push_loop_m.simps) (simp add: push_loop.simps)
  next
    case False
    then have i: "1 \<le> i" "i div 2 < i" "i div 2 < 2 ^ 63" using less.prems by auto
    have pd: "percolateDown_m cmp c i = Some (Inr (percolateDown cmp c i))"
      using i(1) less.prems by (rule percolateDown_m_refines)
    have "push_loop_m cmp (snd (percolateDown cmp c i)) (i div 2) =
          Some (Inr (push_loop cmp (snd (percolateDown cmp c i)) (i div 2)))"
      using i(2,3) less.prems(2) by (intro less.IH) simp_all
    with False pd show ?thesis
      by (subst push_loop_m.simps, cases "percolateDown cmp c i") (simp add: push_loop_unfold)
  qed
qed

lemma heapify_loop_m_refines:
  "i < 2 ^ 63 \<Longrightarrow> length c < 2 ^ 63 \<Longrightarrow>
     heapify_loop_m cmp c i = Some (Inr (heapify_loop cmp c i))"
proof (induction i arbitrary: c)
  case 0
  then show ?case by (subst heapify_loop_m.simps) (simp add: heapify_loop.simps)
next
  case (Suc i)
  have pd: "percolateDown_m cmp c (Suc i) = Some (Inr (percolateDown cmp c (Suc i)))"
    using Suc.prems by (intro percolateDown_m_refines) simp_all
  have d: "sz_dec (Suc i) = i" using Suc.prems sz_dec_pos [of "Suc i"] by simp
  have "heapify_loop_m cmp (snd (percolateDown cmp c (Suc i))) i =
        Some (Inr (heapify_loop cmp (snd (percolateDown cmp c (Suc i))) i))"
    using Suc.prems by (intro Suc.IH) simp_all
  with pd d show ?case
    by (subst heapify_loop_m.simps, subst heapify_loop.simps, cases "percolateDown cmp c (Suc i)")
       simp
qed

lemma push_m_refines:
  assumes "length c + 1 < 2 ^ 63"
  shows "push_m cmp c t = Some (Inr (container (push \<lparr>container = c, compare = cmp\<rparr> t)))"
proof -
  have "length (c @ [t]) div 2 < 2 ^ 63" "length (c @ [t]) < 2 ^ 63" using assms by simp_all
  then show ?thesis
    by (simp add: push_m_def push_def Let_def push_loop_m_refines del: length_append)
qed

lemma heapify_m_refines:
  assumes "length c < 2 ^ 63"
  shows "heapify_m cmp c = Some (Inr (heapify cmp c))"
proof -
  have "length c div 2 < 2 ^ 63" using assms by simp
  with assms show ?thesis by (simp add: heapify_m_def heapify_def heapify_loop_m_refines)
qed

lemma pop_m_refines:
  assumes "length c < 2 ^ 63"
  shows "pop_m cmp c = Some (Inr (container (pop \<lparr>container = c, compare = cmp\<rparr>)))"
proof (cases "c = []")
  case True
  then show ?thesis by (simp add: pop_m_def pop_def empty_pq_def)
next
  case False
  then have d: "sz_dec (length c) = length c - 1"
    using assms by (intro sz_dec_pos) (simp_all add: Suc_leI)
  have "percolateDown_m cmp (butlast (swap_elems c 0 (length c - 1))) 1 =
        Some (Inr (percolateDown cmp (butlast (swap_elems c 0 (length c - 1))) 1))"
    using assms by (intro percolateDown_m_refines) simp_all
  with False d show ?thesis
    by (simp add: pop_m_def pop_def empty_pq_def size_pq_def read_at_def Let_def
          split: prod.splits)
qed

text \<open>The heap invariant only looks at how the ordering ranks the stored elements.\<close>

lemma heap_inv_agrees:
  assumes "agrees_on c c' xs" and "heap_inv c' xs"
  shows "heap_inv c xs"
  unfolding heap_inv_def
proof (intro ballI conjI impI)
  fix i assume i: "i \<in> set [1..<Suc (length xs)]" and l: "2 * i \<le> length xs"
  then have m: "xs ! (i - 1) \<in> set xs" "xs ! (2 * i - 1) \<in> set xs"
    by (auto simp del: upt_Suc)
  from assms(2) i l have "\<not> c' (xs ! (i - 1)) (xs ! (2 * i - 1))"
    unfolding heap_inv_def by blast
  with assms(1) m show "\<not> c (xs ! (i - 1)) (xs ! (2 * i - 1))"
    unfolding agrees_on_def by blast
next
  fix i assume i: "i \<in> set [1..<Suc (length xs)]" and l: "2 * i + 1 \<le> length xs"
  then have m: "xs ! (i - 1) \<in> set xs" "xs ! (2 * i + 1 - 1) \<in> set xs"
    by (auto simp del: upt_Suc)
  from assms(2) i l have "\<not> c' (xs ! (i - 1)) (xs ! (2 * i + 1 - 1))"
    unfolding heap_inv_def by blast
  with assms(1) m show "\<not> c (xs ! (i - 1)) (xs ! (2 * i + 1 - 1))"
    unfolding agrees_on_def by blast
qed

lemma copy_sorted_perm:
  assumes "strict_weak_order c" "heap_inv c xs"
  shows "mset (pop_all \<lparr>container = xs, compare = c\<rparr>) = mset xs \<and>
         non_increasing c (pop_all \<lparr>container = xs, compare = c\<rparr>)"
  using pop_all_sorted_perm [OF assms(1), of "\<lparr>container = xs, compare = c\<rparr>"] assms(2)
  by (simp add: pq_inv_def)

section \<open>The claims\<close>

text \<open>
  C1. Starting from an empty priority queue whose ordering is a strict weak ordering, after
  each call of every sequence of \<open>push\<close> and \<open>pop\<close> calls the heap invariant holds under the
  queue's ordering: no parent ranks below an existing child, and so none ranks below its
  stronger child.
\<close>

theorem heap_invariant_after_each_call:
  assumes "strict_weak_order cmp"
  shows "pq_inv (foldl apply_call (pq_default cmp) (take n calls)) \<and>
         compare (foldl apply_call (pq_default cmp) (take n calls)) = cmp \<and>
         stronger_child_inv cmp (container (foldl apply_call (pq_default cmp) (take n calls)))"
proof -
  have c: "compare (pq_default cmp) = cmp" by (simp add: pq_default_def)
  with assms have "strict_weak_order (compare (pq_default cmp))" by simp
  then have "pq_inv (foldl apply_call (pq_default cmp) (take n calls)) \<and>
      compare (foldl apply_call (pq_default cmp) (take n calls)) = cmp"
    using pq_inv_default pq_inv_calls c by metis
  then show ?thesis
    using heap_inv_stronger_child
            [of cmp "container (foldl apply_call (pq_default cmp) (take n calls))"]
    by (auto simp: pq_inv_def)
qed

theorem heap_invariant_after_each_call_witness:
  "strict_weak_order (less_cmp :: int \<Rightarrow> int \<Rightarrow> bool) \<and>
   pq_inv (foldl apply_call (pq_default less_cmp)
            (take 7 [Push 5, Push 3, Push 8, Pop, Push 1, Push (9::int), Pop, Pop])) \<and>
   compare (foldl apply_call (pq_default less_cmp)
            (take 7 [Push 5, Push 3, Push 8, Pop, Push 1, Push (9::int), Pop, Pop])) = less_cmp \<and>
   stronger_child_inv less_cmp
     (container (foldl apply_call (pq_default less_cmp)
            (take 7 [Push 5, Push 3, Push 8, Pop, Push 1, Push (9::int), Pop, Pop])))"
  by (rule conjI [OF swo_less_cmp heap_invariant_after_each_call [OF swo_less_cmp]])

text \<open>
  C2. For a strict weak ordering, emptying a queue built from the elements \<open>xs\<close> (by the
  range constructor, one \<open>push\<close> each, or by the bulk-heapify constructor) with \<open>top\<close> then
  \<open>pop\<close> yields exactly the multiset of \<open>xs\<close>, as a sequence in which no element ranks
  below a later one; with the inverted ordering, no element ranks above a later one.
\<close>

theorem pop_sequence_sorted:
  assumes "strict_weak_order cmp"
  shows "mset (pop_all (pq_from_range xs cmp)) = mset xs \<and>
         non_increasing cmp (pop_all (pq_from_range xs cmp)) \<and>
         mset (pop_all (pq_from_container_move cmp xs)) = mset xs \<and>
         non_increasing cmp (pop_all (pq_from_container_move cmp xs)) \<and>
         non_decreasing cmp (pop_all (pq_from_range xs (\<lambda>a b. cmp b a))) \<and>
         non_decreasing cmp (pop_all (pq_from_container_move (\<lambda>a b. cmp b a) xs))"
proof -
  have inv: "strict_weak_order (\<lambda>a b. cmp b a)" using assms by (rule swo_inverse)
  have 1: "mset (pop_all (pq_from_range xs cmp)) = mset xs \<and>
           non_increasing cmp (pop_all (pq_from_range xs cmp))"
    using pop_all_sorted_perm [OF assms, of "pq_from_range xs cmp"] pq_inv_from_range [OF assms]
    by simp
  have 2: "mset (pop_all (pq_from_container_move cmp xs)) = mset xs \<and>
           non_increasing cmp (pop_all (pq_from_container_move cmp xs))"
    using pop_all_sorted_perm [OF assms, of "pq_from_container_move cmp xs"]
      pq_inv_from_container_move [OF assms] by simp
  have 3: "non_decreasing cmp (pop_all (pq_from_range xs (\<lambda>a b. cmp b a)))"
    using pop_all_sorted_perm [OF inv, of "pq_from_range xs (\<lambda>a b. cmp b a)"]
      pq_inv_from_range [OF inv]
    by (simp add: non_increasing_def non_decreasing_def)
  have 4: "non_decreasing cmp (pop_all (pq_from_container_move (\<lambda>a b. cmp b a) xs))"
    using pop_all_sorted_perm [OF inv, of "pq_from_container_move (\<lambda>a b. cmp b a) xs"]
      pq_inv_from_container_move [OF inv]
    by (simp add: non_increasing_def non_decreasing_def)
  from 1 2 3 4 show ?thesis by blast
qed

theorem pop_sequence_sorted_witness:
  "strict_weak_order (less_cmp :: int \<Rightarrow> int \<Rightarrow> bool) \<and>
   mset (pop_all (pq_from_range [4, 7, 1, 7, 3 :: int] less_cmp)) = mset [4, 7, 1, 7, 3] \<and>
   non_increasing less_cmp (pop_all (pq_from_range [4, 7, 1, 7, 3 :: int] less_cmp)) \<and>
   mset (pop_all (pq_from_container_move less_cmp [4, 7, 1, 7, 3 :: int])) = mset [4, 7, 1, 7, 3] \<and>
   non_increasing less_cmp (pop_all (pq_from_container_move less_cmp [4, 7, 1, 7, 3 :: int])) \<and>
   non_decreasing less_cmp (pop_all (pq_from_range [4, 7, 1, 7, 3 :: int] (\<lambda>a b. less_cmp b a))) \<and>
   non_decreasing less_cmp
     (pop_all (pq_from_container_move (\<lambda>a b. less_cmp b a) [4, 7, 1, 7, 3 :: int]))"
  by (rule conjI [OF swo_less_cmp pop_sequence_sorted [OF swo_less_cmp]])

text \<open>
  C3 (amended). For the input \<open>{5, 3, 8, 1, 9, 2}\<close> with the default ordering, the queue built
  by pushing the elements one at a time and the queue built by the bulk-heapify constructor
  both have \<open>top() = 9\<close> and the pop sequence \<open>9, 8, 5, 3, 2, 1\<close>. More generally, for a
  strict weak ordering and two sequences holding the same multiset, the two constructions
  have tops and pop sequences that agree position by position up to ties under the
  ordering; they are identical when the ordering is total (only equal elements tie).
\<close>

theorem construction_equivalence:
  "top_pq (pq_from_range [5, 3, 8, 1, 9, 2 :: int] less_cmp) = Inr 9 \<and>
   top_pq (pq_from_container_move less_cmp [5, 3, 8, 1, 9, 2 :: int]) = Inr 9 \<and>
   pop_all (pq_from_range [5, 3, 8, 1, 9, 2 :: int] less_cmp) = [9, 8, 5, 3, 2, 1] \<and>
   pop_all (pq_from_container_move less_cmp [5, 3, 8, 1, 9, 2 :: int]) = [9, 8, 5, 3, 2, 1] \<and>
   (strict_weak_order cmp \<and> mset xs = mset ys \<longrightarrow>
      rel_sum (=) (ties cmp) (top_pq (pq_from_range xs cmp))
        (top_pq (pq_from_container_move cmp ys)) \<and>
      list_all2 (ties cmp) (pop_all (pq_from_range xs cmp))
        (pop_all (pq_from_container_move cmp ys))) \<and>
   (strict_weak_order cmp \<and> total_ordering cmp \<and> mset xs = mset ys \<longrightarrow>
      top_pq (pq_from_range xs cmp) = top_pq (pq_from_container_move cmp ys) \<and>
      pop_all (pq_from_range xs cmp) = pop_all (pq_from_container_move cmp ys))"
proof (intro conjI impI)
  show "top_pq (pq_from_range [5, 3, 8, 1, 9, 2 :: int] less_cmp) = Inr 9" by code_simp
  show "top_pq (pq_from_container_move less_cmp [5, 3, 8, 1, 9, 2 :: int]) = Inr 9" by code_simp
  show "pop_all (pq_from_range [5, 3, 8, 1, 9, 2 :: int] less_cmp) = [9, 8, 5, 3, 2, 1]"
    by code_simp
  show "pop_all (pq_from_container_move less_cmp [5, 3, 8, 1, 9, 2 :: int]) = [9, 8, 5, 3, 2, 1]"
    by code_simp
next
  assume "strict_weak_order cmp \<and> mset xs = mset ys"
  then show "rel_sum (=) (ties cmp) (top_pq (pq_from_range xs cmp))
        (top_pq (pq_from_container_move cmp ys))"
    by (simp add: top_constructions)
next
  assume "strict_weak_order cmp \<and> mset xs = mset ys"
  then show "list_all2 (ties cmp) (pop_all (pq_from_range xs cmp))
        (pop_all (pq_from_container_move cmp ys))"
    by (simp add: pop_all_constructions)
next
  assume a: "strict_weak_order cmp \<and> total_ordering cmp \<and> mset xs = mset ys"
  then have "list_all2 (ties cmp) (pop_all (pq_from_range xs cmp))
        (pop_all (pq_from_container_move cmp ys))"
    by (simp add: pop_all_constructions)
  then have "list_all2 (=) (pop_all (pq_from_range xs cmp))
        (pop_all (pq_from_container_move cmp ys))"
    using a by (auto simp: total_ordering_def elim!: list_all2_mono)
  then show e: "pop_all (pq_from_range xs cmp) = pop_all (pq_from_container_move cmp ys)"
    by (simp add: list.rel_eq)
  then show "top_pq (pq_from_range xs cmp) = top_pq (pq_from_container_move cmp ys)"
    by (simp add: top_pq_pop_all)
qed

theorem construction_equivalence_witness:
  "strict_weak_order (less_cmp :: int \<Rightarrow> int \<Rightarrow> bool) \<and>
   total_ordering (less_cmp :: int \<Rightarrow> int \<Rightarrow> bool) \<and>
   mset [2, 7, 7, 1 :: int] = mset [7, 1, 2, 7] \<and>
   rel_sum (=) (ties less_cmp) (top_pq (pq_from_range [2, 7, 7, 1 :: int] less_cmp))
        (top_pq (pq_from_container_move less_cmp [7, 1, 2, 7])) \<and>
   list_all2 (ties less_cmp) (pop_all (pq_from_range [2, 7, 7, 1 :: int] less_cmp))
        (pop_all (pq_from_container_move less_cmp [7, 1, 2, 7])) \<and>
   top_pq (pq_from_range [2, 7, 7, 1 :: int] less_cmp) =
     top_pq (pq_from_container_move less_cmp [7, 1, 2, 7]) \<and>
   pop_all (pq_from_range [2, 7, 7, 1 :: int] less_cmp) =
     pop_all (pq_from_container_move less_cmp [7, 1, 2, 7])"
proof -
  have h: "strict_weak_order (less_cmp :: int \<Rightarrow> int \<Rightarrow> bool)"
    "total_ordering (less_cmp :: int \<Rightarrow> int \<Rightarrow> bool)"
    "mset [2, 7, 7, 1 :: int] = mset [7, 1, 2, 7]"
    by (simp_all add: swo_less_cmp total_less_cmp)
  from h construction_equivalence [of less_cmp "[2, 7, 7, 1]" "[7, 1, 2, 7]"]
  show ?thesis by blast
qed

text \<open>
  The claim as stated fails where distinct elements tie: for pairs ordered by their first
  component alone, pushing \<open>(0,0), (0,1), (1,2), (1,3)\<close> one at a time leaves \<open>(1,2)\<close> on top,
  and bulk-heapifying the same storage leaves \<open>(1,3)\<close> on top.
\<close>

theorem construction_equivalence_counterexample:
  "strict_weak_order key_less \<and>
   top_pq (pq_from_range [(0, 0), (0, 1), (1, 2), (1, 3)] key_less) = Inr (1, 2) \<and>
   top_pq (pq_from_container_move key_less [(0, 0), (0, 1), (1, 2), (1, 3)]) = Inr (1, 3) \<and>
   pop_all (pq_from_range [(0, 0), (0, 1), (1, 2), (1, 3)] key_less)
     = [(1, 2), (1, 3), (0, 0), (0, 1)] \<and>
   pop_all (pq_from_container_move key_less [(0, 0), (0, 1), (1, 2), (1, 3)])
     = [(1, 3), (1, 2), (0, 1), (0, 0)]"
proof (intro conjI)
  show "strict_weak_order key_less" by (rule swo_key_less)
  show "top_pq (pq_from_range [(0, 0), (0, 1), (1, 2), (1, 3)] key_less) = Inr (1, 2)"
    by code_simp
  show "top_pq (pq_from_container_move key_less [(0, 0), (0, 1), (1, 2), (1, 3)]) = Inr (1, 3)"
    by code_simp
  show "pop_all (pq_from_range [(0, 0), (0, 1), (1, 2), (1, 3)] key_less)
     = [(1, 2), (1, 3), (0, 0), (0, 1)]" by code_simp
  show "pop_all (pq_from_container_move key_less [(0, 0), (0, 1), (1, 2), (1, 3)])
     = [(1, 3), (1, 2), (0, 1), (0, 0)]" by code_simp
qed

text \<open>
  C4 (amended). Copy construction duplicates the storage of the source, which stays as it
  is, and move construction transfers it, leaving the source without elements; an
  explicitly supplied ordering becomes the ordering of the constructed queue; no re-heapify
  pass is performed. The constructed queue satisfies the heap invariant under its ordering
  exactly when the storage of the source is a heap under that ordering: in particular when
  the source satisfies the invariant and the ordering agrees with the source's on the
  stored elements, and then (for a strict weak ordering) emptying the constructed queue
  yields the elements of the source in non-increasing order.
\<close>

theorem copy_move_construction:
  "container (pq_copy rhs c) = container rhs \<and> compare (pq_copy rhs c) = c \<and>
   container (fst (pq_move rhs c)) = container rhs \<and> compare (fst (pq_move rhs c)) = c \<and>
   container (snd (pq_move rhs c)) = [] \<and> compare (snd (pq_move rhs c)) = compare rhs \<and>
   (pq_inv (pq_copy rhs c) \<longleftrightarrow> heap_inv c (container rhs)) \<and>
   (pq_inv (fst (pq_move rhs c)) \<longleftrightarrow> heap_inv c (container rhs)) \<and>
   (pq_inv rhs \<and> agrees_on c (compare rhs) (container rhs) \<longrightarrow>
      pq_inv (pq_copy rhs c) \<and> pq_inv (fst (pq_move rhs c))) \<and>
   (pq_inv rhs \<and> agrees_on c (compare rhs) (container rhs) \<and> strict_weak_order c \<longrightarrow>
      mset (pop_all (pq_copy rhs c)) = mset (container rhs) \<and>
      non_increasing c (pop_all (pq_copy rhs c)) \<and>
      mset (pop_all (fst (pq_move rhs c))) = mset (container rhs) \<and>
      non_increasing c (pop_all (fst (pq_move rhs c))))"
proof -
  have shape: "pq_copy rhs c = \<lparr>container = container rhs, compare = c\<rparr>"
    "fst (pq_move rhs c) = \<lparr>container = container rhs, compare = c\<rparr>"
    "container (snd (pq_move rhs c)) = []" "compare (snd (pq_move rhs c)) = compare rhs"
    by (simp_all add: pq_copy_def pq_move_def moved_from_def)
  have inv: "heap_inv c (container rhs)"
    if "pq_inv rhs" "agrees_on c (compare rhs) (container rhs)"
    using that heap_inv_agrees [of c "compare rhs" "container rhs"] by (simp add: pq_inv_def)
  have srt: "mset (pop_all \<lparr>container = container rhs, compare = c\<rparr>) = mset (container rhs) \<and>
      non_increasing c (pop_all \<lparr>container = container rhs, compare = c\<rparr>)"
    if "pq_inv rhs" "agrees_on c (compare rhs) (container rhs)" "strict_weak_order c"
    using that(3) inv [OF that(1,2)] by (rule copy_sorted_perm)
  show ?thesis
    using inv srt by (simp add: shape pq_inv_def)
qed

theorem copy_move_construction_witness:
  "pq_inv \<lparr>container = [9, 8, 5 :: int], compare = less_cmp\<rparr> \<and>
   agrees_on less_cmp (compare \<lparr>container = [9, 8, 5 :: int], compare = less_cmp\<rparr>)
     (container \<lparr>container = [9, 8, 5 :: int], compare = less_cmp\<rparr>) \<and>
   strict_weak_order (less_cmp :: int \<Rightarrow> int \<Rightarrow> bool) \<and>
   pq_inv (pq_copy \<lparr>container = [9, 8, 5 :: int], compare = less_cmp\<rparr> less_cmp) \<and>
   pq_inv (fst (pq_move \<lparr>container = [9, 8, 5 :: int], compare = less_cmp\<rparr> less_cmp)) \<and>
   container (snd (pq_move \<lparr>container = [9, 8, 5 :: int], compare = less_cmp\<rparr> less_cmp)) = [] \<and>
   mset (pop_all (pq_copy \<lparr>container = [9, 8, 5 :: int], compare = less_cmp\<rparr> less_cmp))
     = mset [9, 8, 5] \<and>
   non_increasing less_cmp
     (pop_all (pq_copy \<lparr>container = [9, 8, 5 :: int], compare = less_cmp\<rparr> less_cmp))"
proof -
  let ?r = "\<lparr>container = [9, 8, 5 :: int], compare = less_cmp\<rparr>"
  have 1: "pq_inv ?r" by (simp add: pq_inv_def heap_inv_example)
  have 2: "agrees_on less_cmp (compare ?r) (container ?r)" by (simp add: agrees_on_def)
  have 3: "strict_weak_order (less_cmp :: int \<Rightarrow> int \<Rightarrow> bool)" by (rule swo_less_cmp)
  from 1 2 3 copy_move_construction [of ?r less_cmp]
  have "pq_inv (pq_copy ?r less_cmp)" "pq_inv (fst (pq_move ?r less_cmp))"
    "container (snd (pq_move ?r less_cmp)) = []"
    "mset (pop_all (pq_copy ?r less_cmp)) = mset (container ?r)"
    "non_increasing less_cmp (pop_all (pq_copy ?r less_cmp))"
    by blast+
  with 1 2 3 show ?thesis by simp
qed

text \<open>
  With an explicitly supplied ordering that differs from the source's, the storage of a
  max-heap is taken over as it is and is not a heap under the new ordering.
\<close>

theorem copy_move_construction_counterexample:
  "pq_inv \<lparr>container = [9, 8, 5 :: int], compare = less_cmp\<rparr> \<and>
   \<not> pq_inv (pq_copy \<lparr>container = [9, 8, 5 :: int], compare = less_cmp\<rparr> greater_cmp) \<and>
   \<not> pq_inv (fst (pq_move \<lparr>container = [9, 8, 5 :: int], compare = less_cmp\<rparr> greater_cmp))"
  by (simp add: pq_inv_def pq_copy_def pq_move_def heap_inv_def less_cmp_def greater_cmp_def)

text \<open>
  C5. On a non-empty queue \<open>top()\<close> returns the element at storage position 0 and leaves the
  queue as it is; that element is maximal when the ordering is a strict weak ordering and
  the heap invariant holds. On an empty queue \<open>top()\<close> fails with the out-of-range error and
  returns no value. Of the public operations, a call reports an error exactly when it is
  \<open>top()\<close> on an empty queue.
\<close>

theorem top_access:
  "(\<not> empty_pq q \<longrightarrow> top_pq q = Inr (container q ! 0) \<and>
       exec q Top = Inr (Element (container q ! 0), q)) \<and>
   (empty_pq q \<longrightarrow> top_pq q = Inl OutOfRange \<and> exec q Top = Inl OutOfRange) \<and>
   (strict_weak_order (compare q) \<and> pq_inv q \<and> x \<in> set (container q) \<longrightarrow>
       \<not> compare q (container q ! 0) x) \<and>
   ((\<exists>e. exec q operation = Inl e) \<longleftrightarrow> operation = Top \<and> empty_pq q)"
proof (intro conjI impI)
  assume "strict_weak_order (compare q) \<and> pq_inv q \<and> x \<in> set (container q)"
  then show "\<not> compare q (container q ! 0) x"
    using heap_inv_top_maximal [of "compare q" "container q" x] by (simp add: pq_inv_def)
next
  show "(\<exists>e. exec q operation = Inl e) \<longleftrightarrow> operation = Top \<and> empty_pq q"
    by (cases operation) (auto simp: top_pq_def)
qed (simp_all add: top_pq_def)

theorem top_access_witness:
  "\<not> empty_pq (pq_from_range [3, 1, 4 :: int] less_cmp) \<and>
   top_pq (pq_from_range [3, 1, 4 :: int] less_cmp) = Inr 4 \<and>
   exec (pq_from_range [3, 1, 4 :: int] less_cmp) Top
     = Inr (Element 4, pq_from_range [3, 1, 4 :: int] less_cmp) \<and>
   empty_pq (pq_default (less_cmp :: int \<Rightarrow> int \<Rightarrow> bool)) \<and>
   top_pq (pq_default (less_cmp :: int \<Rightarrow> int \<Rightarrow> bool)) = Inl OutOfRange \<and>
   exec (pq_default (less_cmp :: int \<Rightarrow> int \<Rightarrow> bool)) Top = Inl OutOfRange \<and>
   strict_weak_order (compare (pq_from_range [3, 1, 4 :: int] less_cmp)) \<and>
   pq_inv (pq_from_range [3, 1, 4 :: int] less_cmp) \<and>
   1 \<in> set (container (pq_from_range [3, 1, 4 :: int] less_cmp)) \<and>
   \<not> compare (pq_from_range [3, 1, 4 :: int] less_cmp) 4 1"
proof -
  let ?q = "pq_from_range [3, 1, 4 :: int] less_cmp"
  let ?e = "pq_default (less_cmp :: int \<Rightarrow> int \<Rightarrow> bool)"
  have c: "container ?q = [4, 1, 3]" by code_simp
  have 1: "\<not> empty_pq ?q" by (simp add: empty_pq_def c)
  have 2: "empty_pq ?e" by (simp add: empty_pq_def pq_default_def)
  have 3: "strict_weak_order (compare ?q)" by (simp add: swo_less_cmp)
  have 4: "pq_inv ?q" using swo_less_cmp by (rule pq_inv_from_range)
  have 5: "1 \<in> set (container ?q)" by (simp add: c)
  from 1 3 4 5 top_access [of ?q 1 Top] have "top_pq ?q = Inr 4"
    "exec ?q Top = Inr (Element 4, ?q)" "\<not> compare ?q 4 1"
    by (simp_all add: c)
  moreover from 2 top_access [of ?e 1 Top] have "top_pq ?e = Inl OutOfRange"
    "exec ?e Top = Inl OutOfRange" by simp_all
  ultimately show ?thesis using 1 2 3 4 5 by blast
qed

text \<open>
  C6. \<open>pop()\<close> on an empty queue returns without an error and leaves the queue, of size 0,
  unchanged. On a non-empty queue it swaps the first and last elements, removes the last,
  and runs \<open>percolateDown(1)\<close>: the size decreases by exactly 1, the element removed is the
  former top, and the heap invariant holds again (for a strict weak ordering).
\<close>

theorem pop_behaviour:
  "(empty_pq q \<longrightarrow> pop q = q \<and> size_pq (pop q) = 0 \<and> exec q PopOp = Inr (Nothing, q)) \<and>
   (\<not> empty_pq q \<longrightarrow>
      container (pop q) =
        snd (percolateDown (compare q)
               (butlast (swap_elems (container q) 0 (size_pq q - 1))) 1) \<and>
      compare (pop q) = compare q \<and>
      Suc (size_pq (pop q)) = size_pq q \<and>
      add_mset (container q ! 0) (mset (container (pop q))) = mset (container q) \<and>
      (strict_weak_order (compare q) \<and> pq_inv q \<longrightarrow> pq_inv (pop q)))"
proof (intro conjI impI)
  assume e: "\<not> empty_pq q"
  then show "container (pop q) =
        snd (percolateDown (compare q)
               (butlast (swap_elems (container q) 0 (size_pq q - 1))) 1)"
    by (simp add: pop_def Let_def)
  from e show "Suc (size_pq (pop q)) = size_pq q"
    using size_pop [of q] by (simp add: empty_pq_def size_pq_def)
  from e show "add_mset (container q ! 0) (mset (container (pop q))) = mset (container q)"
    by (rule mset_pop)
  assume "strict_weak_order (compare q) \<and> pq_inv q"
  then show "pq_inv (pop q)" using heap_inv_pop [of q] by (simp add: pq_inv_def)
qed (simp_all add: pop_def size_pq_def empty_pq_def)

theorem pop_behaviour_witness:
  "empty_pq (pq_default (less_cmp :: int \<Rightarrow> int \<Rightarrow> bool)) \<and>
   pop (pq_default (less_cmp :: int \<Rightarrow> int \<Rightarrow> bool)) = pq_default less_cmp \<and>
   size_pq (pop (pq_default (less_cmp :: int \<Rightarrow> int \<Rightarrow> bool))) = 0 \<and>
   \<not> empty_pq (pq_from_range [3, 1, 4 :: int] less_cmp) \<and>
   strict_weak_order (compare (pq_from_range [3, 1, 4 :: int] less_cmp)) \<and>
   pq_inv (pq_from_range [3, 1, 4 :: int] less_cmp) \<and>
   container (pop (pq_from_range [3, 1, 4 :: int] less_cmp)) = [3, 1] \<and>
   Suc (size_pq (pop (pq_from_range [3, 1, 4 :: int] less_cmp)))
     = size_pq (pq_from_range [3, 1, 4 :: int] less_cmp) \<and>
   pq_inv (pop (pq_from_range [3, 1, 4 :: int] less_cmp))"
proof -
  let ?q = "pq_from_range [3, 1, 4 :: int] less_cmp"
  let ?e = "pq_default (less_cmp :: int \<Rightarrow> int \<Rightarrow> bool)"
  have c: "container ?q = [4, 1, 3]" by code_simp
  have p: "container (pop ?q) = [3, 1]" by code_simp
  have 1: "\<not> empty_pq ?q" by (simp add: empty_pq_def c)
  have 2: "empty_pq ?e" by (simp add: empty_pq_def pq_default_def)
  have 3: "strict_weak_order (compare ?q)" by (simp add: swo_less_cmp)
  have 4: "pq_inv ?q" using swo_less_cmp by (rule pq_inv_from_range)
  from 2 pop_behaviour [of ?e] have "pop ?e = ?e" "size_pq (pop ?e) = 0" by blast+
  moreover from 1 3 4 pop_behaviour [of ?q]
  have "Suc (size_pq (pop ?q)) = size_pq ?q" "pq_inv (pop ?q)" by blast+
  ultimately show ?thesis using 1 2 3 4 p by blast
qed

text \<open>
  C7. With a greater-than ordering the queue is a min-heap: for the input
  \<open>{5, 3, 8, 1, 9, 2}\<close> the pop sequence is \<open>1, 2, 3, 5, 8, 9\<close>, the reverse of the sequence
  popped with the default ordering; for every input the pop sequence is the input sorted
  in ascending order, the reverse of the max-heap extraction order.
\<close>

theorem min_heap_inversion:
  "pop_all (pq_from_range [5, 3, 8, 1, 9, 2 :: int] greater_cmp) = [1, 2, 3, 5, 8, 9] \<and>
   pop_all (pq_from_container_move greater_cmp [5, 3, 8, 1, 9, 2 :: int]) = [1, 2, 3, 5, 8, 9] \<and>
   pop_all (pq_from_range [5, 3, 8, 1, 9, 2 :: int] less_cmp) = rev [1, 2, 3, 5, 8, 9] \<and>
   pop_all (pq_from_range xs greater_cmp) = sort xs \<and>
   pop_all (pq_from_container_move greater_cmp xs) = sort xs \<and>
   pop_all (pq_from_range xs greater_cmp) = rev (pop_all (pq_from_range xs less_cmp)) \<and>
   pop_all (pq_from_container_move greater_cmp xs)
     = rev (pop_all (pq_from_container_move less_cmp xs))"
proof (intro conjI)
  show "pop_all (pq_from_range [5, 3, 8, 1, 9, 2 :: int] greater_cmp) = [1, 2, 3, 5, 8, 9]"
    by code_simp
  show "pop_all (pq_from_container_move greater_cmp [5, 3, 8, 1, 9, 2 :: int])
      = [1, 2, 3, 5, 8, 9]"
    by code_simp
  show "pop_all (pq_from_range [5, 3, 8, 1, 9, 2 :: int] less_cmp) = rev [1, 2, 3, 5, 8, 9]"
    by code_simp
  show "pop_all (pq_from_range xs greater_cmp) = sort xs" by (rule pop_all_range_greater)
  show "pop_all (pq_from_container_move greater_cmp xs) = sort xs"
    by (rule pop_all_move_greater)
  show "pop_all (pq_from_range xs greater_cmp) = rev (pop_all (pq_from_range xs less_cmp))"
    by (simp only: pop_all_range_greater pop_all_range_less rev_rev_ident)
  show "pop_all (pq_from_container_move greater_cmp xs)
     = rev (pop_all (pq_from_container_move less_cmp xs))"
    by (simp only: pop_all_move_greater pop_all_move_less rev_rev_ident)
qed

text \<open>
  C8. The free function \<open>swap\<close> exchanges the storage and the comparison object of its two
  arguments. With \<open>A\<close> holding \<open>{10, 4}\<close> and \<open>B\<close> holding \<open>{7}\<close>, after \<open>swap(A, B)\<close> the
  queue \<open>A\<close> has top 7 and size 1, and \<open>B\<close> has top 10 and size 2.
\<close>

theorem swap_exchanges_state:
  "swap_pq (a, b) = (b, a) \<and>
   container (fst (swap_pq (a, b))) = container b \<and>
   compare (fst (swap_pq (a, b))) = compare b \<and>
   container (snd (swap_pq (a, b))) = container a \<and>
   compare (snd (swap_pq (a, b))) = compare a \<and>
   top_pq (fst (swap_pq (pq_from_range [10, 4 :: int] less_cmp, pq_from_range [7] less_cmp)))
     = Inr 7 \<and>
   size_pq (fst (swap_pq (pq_from_range [10, 4 :: int] less_cmp, pq_from_range [7] less_cmp)))
     = 1 \<and>
   top_pq (snd (swap_pq (pq_from_range [10, 4 :: int] less_cmp, pq_from_range [7] less_cmp)))
     = Inr 10 \<and>
   size_pq (snd (swap_pq (pq_from_range [10, 4 :: int] less_cmp, pq_from_range [7] less_cmp)))
     = 2"
proof -
  have s: "swap_pq (a, b) = (b, a)" for a b :: "'b priority_queue"
    by (simp add: swap_pq_def)
  have a: "container (pq_from_range [10, 4 :: int] less_cmp) = [10, 4]" by code_simp
  have b: "container (pq_from_range [7 :: int] less_cmp) = [7]" by code_simp
  show ?thesis by (simp add: s top_pq_def size_pq_def empty_pq_def a b)
qed

text \<open>
  C9 (amended). For every call of \<open>percolateDown\<close> with \<open>1 \<le> heapIndex < 2 ^ 63\<close> (so that
  \<open>2 * heapIndex + 1\<close> does not wrap around in \<open>size_t\<close>) on a storage of fewer than
  \<open>2 ^ 63\<close> elements, every access \<open>container[k]\<close> has \<open>k < size()\<close>: the call never
  accesses the storage out of bounds, and returns what \<open>percolateDown\<close> computes. In
  particular \<open>percolateDown(1)\<close> on an empty storage accesses no element (any access to
  an empty storage is out of bounds) and returns false.
\<close>

theorem percolateDown_in_bounds:
  assumes "1 \<le> heapIndex" "heapIndex < 2 ^ 63" "length c < 2 ^ 63"
  shows "percolateDown_m cmp c heapIndex \<noteq> Some (Inl OutOfBounds) \<and>
         percolateDown_m cmp c heapIndex = Some (Inr (percolateDown cmp c heapIndex)) \<and>
         percolateDown_m cmp [] 1 = Some (Inr (False, []))"
proof -
  have "percolateDown_m cmp [] 1 = Some (Inr (False, []))"
    by (subst percolateDown_m.simps) (simp add: sz_def sz_dec_def read_at_def Let_def)
  with percolateDown_m_refines [OF assms, of cmp] show ?thesis by simp
qed

theorem percolateDown_in_bounds_witness:
  "(1::nat) \<le> 1 \<and> (1::nat) < 2 ^ 63 \<and> length [3, 9, 4 :: int] < 2 ^ 63 \<and>
   percolateDown_m less_cmp [3, 9, 4 :: int] 1 \<noteq> Some (Inl OutOfBounds) \<and>
   percolateDown_m less_cmp [3, 9, 4 :: int] 1 = Some (Inr (True, [9, 3, 4]))"
proof -
  have h: "(1::nat) \<le> 1" "(1::nat) < 2 ^ 63" "length [3, 9, 4 :: int] < 2 ^ 63" by simp_all
  have v: "percolateDown less_cmp [3, 9, 4 :: int] 1 = (True, [9, 3, 4])" by code_simp
  from percolateDown_in_bounds [OF h, of less_cmp] v h show ?thesis by simp
qed

text \<open>
  For \<open>heapIndex = 2 ^ 63\<close> the product \<open>indexHeap * 2\<close> wraps to 0 and \<open>indexRight\<close> is 1: on
  a storage of one element the guard \<open>indexRight <= size()\<close> holds and
  \<open>container[indexLeft - 1]\<close> is read at position \<open>2 ^ 64 - 1\<close>.
\<close>

theorem percolateDown_in_bounds_counterexample:
  "(1::nat) \<le> 2 ^ 63 \<and> percolateDown_m less_cmp [0 :: int] (2 ^ 63) = Some (Inl OutOfBounds)"
  by (subst percolateDown_m.simps) (simp add: sz_def sz_dec_def read_at_def Let_def)

text \<open>
  C10 (amended). Every call of \<open>percolateDown\<close> with \<open>1 \<le> heapIndex < 2 ^ 63\<close> on a storage
  of fewer than \<open>2 ^ 63\<close> elements returns, with the result that \<open>percolateDown\<close> computes.
  When the call invokes itself, it does so at \<open>indexBigger\<close> with
  \<open>2 * heapIndex \<le> indexBigger \<le> size()\<close> on a storage of the same size, so the index strictly
  increases and is bounded. On such a storage \<open>pop\<close> and \<open>heapify\<close> return, and so does
  \<open>push\<close> when the storage with the new element has fewer than \<open>2 ^ 63\<close> elements.
\<close>

theorem operations_terminate:
  assumes "1 \<le> heapIndex" "heapIndex < 2 ^ 63" "length c < 2 ^ 63"
  shows "percolateDown_m cmp c heapIndex = Some (Inr (percolateDown cmp c heapIndex)) \<and>
         (fst (percolateDown cmp c heapIndex) \<longrightarrow>
            2 * heapIndex \<le> bigger_child cmp c heapIndex \<and>
            heapIndex < bigger_child cmp c heapIndex \<and>
            bigger_child cmp c heapIndex \<le> length c \<and>
            length (swap_elems c (heapIndex - 1) (bigger_child cmp c heapIndex - 1)) = length c \<and>
            percolateDown_m cmp c heapIndex =
              Option.bind
                (percolateDown_m cmp
                   (swap_elems c (heapIndex - 1) (bigger_child cmp c heapIndex - 1))
                   (bigger_child cmp c heapIndex))
                (\<lambda>r. Some (case r of Inl f \<Rightarrow> Inl f | Inr (changed, c') \<Rightarrow> Inr (True, c')))) \<and>
         (length c + 1 < 2 ^ 63 \<longrightarrow>
            push_m cmp c t = Some (Inr (container (push \<lparr>container = c, compare = cmp\<rparr> t)))) \<and>
         pop_m cmp c = Some (Inr (container (pop \<lparr>container = c, compare = cmp\<rparr>))) \<and>
         heapify_m cmp c = Some (Inr (heapify cmp c))"
proof (intro conjI impI)
  show "percolateDown_m cmp c heapIndex = Some (Inr (percolateDown cmp c heapIndex))"
    using assms by (rule percolateDown_m_refines)
  show "pop_m cmp c = Some (Inr (container (pop \<lparr>container = c, compare = cmp\<rparr>)))"
    using assms(3) by (rule pop_m_refines)
  show "heapify_m cmp c = Some (Inr (heapify cmp c))"
    using assms(3) by (rule heapify_m_refines)
  show "push_m cmp c t = Some (Inr (container (push \<lparr>container = c, compare = cmp\<rparr> t)))"
    if "length c + 1 < 2 ^ 63"
    using that by (rule push_m_refines)
next
  assume a: "fst (percolateDown cmp c heapIndex)"
  then have rec: "bigger_child cmp c heapIndex \<le> length c \<and>
      cmp (at c heapIndex) (at c (bigger_child cmp c heapIndex))"
    using percolateDown_stay [OF assms(1), of cmp c] by fastforce
  show "2 * heapIndex \<le> bigger_child cmp c heapIndex"
    using bigger_child_cases [of cmp c heapIndex] by auto
  show "heapIndex < bigger_child cmp c heapIndex" using assms(1) by (rule bigger_child_gt)
  show "bigger_child cmp c heapIndex \<le> length c" using rec by simp
  show "length (swap_elems c (heapIndex - 1) (bigger_child cmp c heapIndex - 1)) = length c"
    by simp
  show "percolateDown_m cmp c heapIndex =
              Option.bind
                (percolateDown_m cmp
                   (swap_elems c (heapIndex - 1) (bigger_child cmp c heapIndex - 1))
                   (bigger_child cmp c heapIndex))
                (\<lambda>r. Some (case r of Inl f \<Rightarrow> Inl f | Inr (changed, c') \<Rightarrow> Inr (True, c')))"
    using assms(1,2) rec by (intro percolateDown_m_swap) simp_all
qed

theorem operations_terminate_witness:
  "(1::nat) \<le> 1 \<and> (1::nat) < 2 ^ 63 \<and> length [3, 9, 4 :: int] < 2 ^ 63 \<and>
   fst (percolateDown less_cmp [3, 9, 4 :: int] 1) \<and>
   length [3, 9, 4 :: int] + 1 < 2 ^ 63 \<and>
   percolateDown_m less_cmp [3, 9, 4 :: int] 1 = Some (Inr (True, [9, 3, 4])) \<and>
   2 * 1 \<le> bigger_child less_cmp [3, 9, 4 :: int] 1 \<and>
   bigger_child less_cmp [3, 9, 4 :: int] 1 \<le> length [3, 9, 4 :: int] \<and>
   push_m less_cmp [3, 9, 4 :: int] 7 = Some (Inr [3, 9, 4, 7]) \<and>
   pop_m less_cmp [3, 9, 4 :: int] = Some (Inr [9, 4]) \<and>
   heapify_m less_cmp [3, 9, 4 :: int] = Some (Inr [9, 3, 4])"
proof -
  have h: "(1::nat) \<le> 1" "(1::nat) < 2 ^ 63" "length [3, 9, 4 :: int] < 2 ^ 63" by simp_all
  have v: "percolateDown less_cmp [3, 9, 4 :: int] 1 = (True, [9, 3, 4])" by code_simp
  have g: "fst (percolateDown less_cmp [3, 9, 4 :: int] 1)"
    "length [3, 9, 4 :: int] + 1 < 2 ^ 63" using v by simp_all
  have e: "container (push \<lparr>container = [3, 9, 4 :: int], compare = less_cmp\<rparr> 7) = [3, 9, 4, 7]"
    "container (pop \<lparr>container = [3, 9, 4 :: int], compare = less_cmp\<rparr>) = [9, 4]"
    "heapify less_cmp [3, 9, 4 :: int] = [9, 3, 4]"
    by code_simp+
  note t = operations_terminate [OF h, of less_cmp 7]
  note t2 = t [THEN conjunct2, THEN conjunct1, THEN mp, OF g(1)]
  show ?thesis
    by (intro conjI h g
          t [THEN conjunct1, unfolded v]
          t2 [THEN conjunct1]
          t2 [THEN conjunct2, THEN conjunct2, THEN conjunct1]
          t [THEN conjunct2, THEN conjunct2, THEN conjunct1, THEN mp, OF g(2), unfolded e]
          t [THEN conjunct2, THEN conjunct2, THEN conjunct2, THEN conjunct1, unfolded e]
          t [THEN conjunct2, THEN conjunct2, THEN conjunct2, THEN conjunct2, unfolded e])
qed

text \<open>
  For \<open>heapIndex = 2 ^ 63 + 1\<close> on a storage of three elements the child indices wrap around
  to 2 and 3, below \<open>2 * heapIndex\<close>; both children are read, \<open>indexBigger <= size()\<close> holds,
  and \<open>container[indexHeap - 1]\<close> is read at position \<open>2 ^ 63\<close>, out of bounds: the call does
  not return a result.
\<close>

theorem operations_terminate_counterexample:
  "(1::nat) \<le> 2 ^ 63 + 1 \<and> sz ((2 ^ 63 + 1) * 2) = 2 \<and>
   percolateDown_m less_cmp [1, 2, 3 :: int] (2 ^ 63 + 1) = Some (Inl OutOfBounds)"
  by (subst percolateDown_m.simps) (simp add: sz_def sz_dec_def read_at_def Let_def less_cmp_def)

end
